theory Spec2Isabelle
  imports
    Main
    "HOL-Library.Char_ord"
    "HOL-Library.List_Lexorder"
    "HOL-Library.Monad_Syntax"
    "HOL-Library.AList"
begin

unbundle bit_operations_syntax

section \<open>JSON values and their serialisation\<close>

text \<open>
  The values that reach \<^verbatim>\<open>JSON.stringify\<close> in \<^verbatim>\<open>crypto.ts\<close> are plain data: audit
  entries, the link object of a chained entry and the summary of an audit log. They are
  modelled as JSON trees. An object is the list of its own enumerable properties in
  the order in which \<^verbatim>\<open>Object.keys\<close> and \<^verbatim>\<open>JSON.stringify\<close> enumerate them. A property
  whose value is \<^verbatim>\<open>undefined\<close> is left out of the list, as \<^verbatim>\<open>JSON.stringify\<close> leaves it
  out of the text. Numbers are integers (of a size that JavaScript holds exactly and
  prints in plain decimal); strings are lists of 8-bit code units.
\<close>

datatype json =
    JNull
  | JBool bool
  | JNum int
  | JStr string
  | JArr "json list"
  | JObj "(string \<times> json) list"

definition digit_char :: "int \<Rightarrow> char" where
  "digit_char d = ''0123456789abcdef'' ! nat d"

function dec_digits :: "int \<Rightarrow> string" where
  "dec_digits n =
     (if n < 10 then [digit_char n] else dec_digits (n div 10) @ [digit_char (n mod 10)])"
  by pat_completeness auto
termination
  by (relation "measure nat") auto

declare dec_digits.simps [simp del]

text \<open>The decimal text of a number, as template literals and \<^verbatim>\<open>JSON.stringify\<close> print it.\<close>

definition number_text :: "int \<Rightarrow> string" where
  "number_text i = (if i < 0 then CHR ''-'' # dec_digits (- i) else dec_digits i)"

text \<open>
  \<^verbatim>\<open>QuoteJSONString\<close>: the two-character escapes, \<^verbatim>\<open>\u00XX\<close> for the other control
  characters, every other code unit as it is. \<open>CHR 0x5C\<close> is the backslash and
  \<open>CHR 0x22\<close> the double quote.
\<close>

definition quote_char :: "char \<Rightarrow> string" where
  "quote_char c =
     (if c = CHR 0x08 then [CHR 0x5C, CHR ''b'']
      else if c = CHR 0x09 then [CHR 0x5C, CHR ''t'']
      else if c = CHR 0x0A then [CHR 0x5C, CHR ''n'']
      else if c = CHR 0x0C then [CHR 0x5C, CHR ''f'']
      else if c = CHR 0x0D then [CHR 0x5C, CHR ''r'']
      else if c = CHR 0x22 then [CHR 0x5C, CHR 0x22]
      else if c = CHR 0x5C then [CHR 0x5C, CHR 0x5C]
      else if (of_char c :: int) < 32 then
        [CHR 0x5C, CHR ''u'', CHR ''0'', CHR ''0'',
         digit_char (of_char c div 16), digit_char (of_char c mod 16)]
      else [c])"

definition quote :: "string \<Rightarrow> string" where
  "quote s = CHR 0x22 # concat (map quote_char s) @ [CHR 0x22]"

fun join_comma :: "string list \<Rightarrow> string" where
  "join_comma [] = []"
| "join_comma [x] = x"
| "join_comma (x # y # zs) = x @ '','' @ join_comma (y # zs)"

subsection \<open>Property order of a freshly assigned object\<close>

text \<open>
  \<^verbatim>\<open>sortedReplacer\<close> copies the properties of an object into a fresh object \<^verbatim>\<open>sorted\<close>,
  one assignment \<^verbatim>\<open>sorted[k] = value[k]\<close> per key. A JavaScript object enumerates its
  array-index keys first, in ascending numeric order, then its other string keys in the
  order of their creation; and assigning to \<^verbatim>\<open>__proto__\<close> on a plain object sets the
  prototype and creates no own property.
\<close>

definition is_digit :: "char \<Rightarrow> bool" where
  "is_digit c = (CHR ''0'' \<le> c \<and> c \<le> CHR ''9'')"

definition dec_value :: "string \<Rightarrow> int" where
  "dec_value s = foldl (\<lambda>a c. 10 * a + (of_char c - 48)) 0 s"

definition is_array_index :: "string \<Rightarrow> bool" where
  "is_array_index s =
     (s \<noteq> [] \<and> list_all is_digit s \<and> (if hd s = CHR ''0'' then length s = 1 else True)
      \<and> dec_value s < 4294967295)"

definition assigned_keys :: "string list \<Rightarrow> string list" where
  "assigned_keys ks =
     (let own = filter (\<lambda>k. k \<noteq> ''__proto__'') ks
      in sort_key dec_value (filter is_array_index own)
         @ filter (\<lambda>k. \<not> is_array_index k) own)"

text \<open>
  \<^verbatim>\<open>sortedReplacer\<close> (crypto.ts, lines 33-45): a non-null, non-array object is replaced
  by the copy whose keys were assigned in the order of \<^verbatim>\<open>Object.keys(value).sort()\<close>;
  every other value is returned as it is.
\<close>

definition sortedReplacer :: "json \<Rightarrow> json" where
  "sortedReplacer v =
     (case v of
        JObj kvs \<Rightarrow>
          JObj (List.map_filter (\<lambda>k. map_option (Pair k) (map_of kvs k))
                  (assigned_keys (sort (map fst kvs))))
      | _ \<Rightarrow> v)"

lemma size_obj_member: "(k, x) \<in> set kvs \<Longrightarrow> size x < size (JObj kvs)"
  by (induction kvs) auto

lemma size_arr_member: "x \<in> set xs \<Longrightarrow> size x < size (JArr xs)"
  by (induction xs) auto

lemma sortedReplacer_size_obj:
  "sortedReplacer v = JObj kvs \<Longrightarrow> (k, x) \<in> set kvs \<Longrightarrow> size x < size v"
proof (cases v)
  case (JObj kvs0)
  assume a: "sortedReplacer v = JObj kvs" "(k, x) \<in> set kvs"
  from a JObj have "map_of kvs0 k = Some x"
    by (auto simp: sortedReplacer_def List.map_filter_def)
  then have "(k, x) \<in> set kvs0" by (rule map_of_SomeD)
  then show ?thesis using size_obj_member[of k x kvs0] JObj by simp
qed (auto simp: sortedReplacer_def)

lemma sortedReplacer_size_arr:
  "sortedReplacer v = JArr xs \<Longrightarrow> x \<in> set xs \<Longrightarrow> size x < size v"
  using size_arr_member[of x xs] by (cases v) (auto simp: sortedReplacer_def)

text \<open>
  \<^verbatim>\<open>JSON.stringify(v, replacer)\<close>: every value is first handed to the replacer (when
  \<open>r\<close> holds, \<^verbatim>\<open>sortedReplacer\<close>; without a replacer the value is taken as it is), and
  the result is printed by its kind; the members of arrays and objects are serialised
  the same way.
\<close>

function json_text :: "bool \<Rightarrow> json \<Rightarrow> string" where
  "json_text r v =
     (case (if r then sortedReplacer v else v) of
        JNull \<Rightarrow> ''null''
      | JBool b \<Rightarrow> (if b then ''true'' else ''false'')
      | JNum i \<Rightarrow> number_text i
      | JStr s \<Rightarrow> quote s
      | JArr xs \<Rightarrow> ''['' @ join_comma (map (json_text r) xs) @ '']''
      | JObj kvs \<Rightarrow>
          ''{'' @ join_comma (map (\<lambda>(k, x). quote k @ '':'' @ json_text r x) kvs) @ ''}'')"
  by pat_completeness auto
termination
proof (relation "measure (\<lambda>(r, v). size v)", goal_cases)
  case 1
  show ?case by simp
next
  case (2 r v xs x)
  then show ?case
    using sortedReplacer_size_arr[of v xs x] size_arr_member[of x xs]
    by (auto split: if_splits)
next
  case (3 r v kvs p k x)
  then show ?case
    using sortedReplacer_size_obj[of v kvs k x] size_obj_member[of k x kvs]
    by (auto split: if_splits)
qed

declare json_text.simps [simp del]

section \<open>Hashing\<close>

text \<open>
  \<^verbatim>\<open>sha256\<close> (crypto.ts, lines 18-20) is Node's \<^verbatim>\<open>createHash('sha256')\<close> with a hex
  digest. The digest function belongs to the platform, not to the repository, so every
  function below takes it as its first argument \<open>sha256\<close>.
\<close>

definition hashObject :: "(string \<Rightarrow> string) \<Rightarrow> json \<Rightarrow> string" where
  "hashObject sha256 obj = (let normalized = json_text True obj in sha256 normalized)"

section \<open>The hash chain\<close>

record chained_entry =
  sequence :: int
  entry :: json
  previous_hash :: string
  entry_hash :: string

text \<open>The object \<^verbatim>\<open>{sequence, entry, previous_hash}\<close> that is hashed for a link.\<close>

definition entryWithPrevious :: "int \<Rightarrow> json \<Rightarrow> string \<Rightarrow> json" where
  "entryWithPrevious n e previousHash =
     JObj [(''sequence'', JNum n), (''entry'', e), (''previous_hash'', JStr previousHash)]"

definition createChainedEntry ::
  "(string \<Rightarrow> string) \<Rightarrow> json \<Rightarrow> int \<Rightarrow> string \<Rightarrow> chained_entry" where
  "createChainedEntry sha256 e n previousHash =
     (let entryHash = hashObject sha256 (entryWithPrevious n e previousHash)
      in \<lparr>sequence = n, entry = e, previous_hash = previousHash, entry_hash = entryHash\<rparr>)"

record link_result =
  link_valid :: bool
  link_error :: "string option"

definition verifyChainLink ::
  "(string \<Rightarrow> string) \<Rightarrow> chained_entry \<Rightarrow> chained_entry option \<Rightarrow> link_result" where
  "verifyChainLink sha256 current previous =
     (let expectedSequence = (case previous of Some p \<Rightarrow> sequence p + 1 | None \<Rightarrow> 0) in
      if sequence current \<noteq> expectedSequence then
        \<lparr>link_valid = False,
         link_error = Some (''Sequence mismatch: expected '' @ number_text expectedSequence
                            @ '', got '' @ number_text (sequence current))\<rparr>
      else
        let expectedPreviousHash = (case previous of Some p \<Rightarrow> entry_hash p | None \<Rightarrow> '''') in
        if previous_hash current \<noteq> expectedPreviousHash then
          \<lparr>link_valid = False,
           link_error = Some (''Previous hash mismatch at sequence ''
                              @ number_text (sequence current))\<rparr>
        else
          let recomputed =
                hashObject sha256
                  (entryWithPrevious (sequence current) (entry current) (previous_hash current)) in
          if entry_hash current \<noteq> recomputed then
            \<lparr>link_valid = False,
             link_error = Some (''Entry hash mismatch at sequence ''
                                @ number_text (sequence current))\<rparr>
          else \<lparr>link_valid = True, link_error = None\<rparr>)"

record chain_result =
  valid :: bool
  errors :: "string list"
  verified_count :: nat

text \<open>
  The \<^verbatim>\<open>for\<close> loop of \<^verbatim>\<open>verifyChain\<close> (crypto.ts, lines 132-141), from index \<open>i\<close> with
  the errors collected so far. An error is pushed when the link is invalid and its
  message is truthy, that is, a non-empty string. The elements of the list are entries,
  so the guard that skips a missing element never applies.
\<close>

function verifyChain_loop ::
  "(string \<Rightarrow> string) \<Rightarrow> chained_entry list \<Rightarrow> nat \<Rightarrow> string list \<Rightarrow> string list" where
  "verifyChain_loop sha256 entries i errs =
     (if i < length entries then
        (let current = entries ! i;
             previous = (if i > 0 then Some (entries ! (i - 1)) else None);
             result = verifyChainLink sha256 current previous
         in verifyChain_loop sha256 entries (i + 1)
              (case link_error result of
                 Some msg \<Rightarrow> if \<not> link_valid result \<and> msg \<noteq> [] then errs @ [msg] else errs
               | None \<Rightarrow> errs))
      else errs)"
  by pat_completeness auto
termination
  by (relation "measure (\<lambda>(sha256, entries, i, errs). length entries - i)") auto

declare verifyChain_loop.simps [simp del]

definition verifyChain :: "(string \<Rightarrow> string) \<Rightarrow> chained_entry list \<Rightarrow> chain_result" where
  "verifyChain sha256 entries =
     (let errs = verifyChain_loop sha256 entries 0 []
      in \<lparr>valid = (length errs = 0), errors = errs, verified_count = length entries\<rparr>)"

text \<open>
  The chain invariant in the words of the specification: entry \<open>i\<close> has sequence \<open>i\<close>,
  the first entry has the empty previous hash, every later one the entry hash of its
  predecessor, and every entry hash is the canonical hash of the entry's own
  \<open>(sequence, entry, previous_hash)\<close>.
\<close>

definition chain_invariant :: "(string \<Rightarrow> string) \<Rightarrow> chained_entry list \<Rightarrow> bool" where
  "chain_invariant sha256 es =
     list_all
       (\<lambda>i. sequence (es ! i) = int i
            \<and> previous_hash (es ! i) = (if i = 0 then '''' else entry_hash (es ! (i - 1)))
            \<and> entry_hash (es ! i)
                = hashObject sha256 (entryWithPrevious (int i) (entry (es ! i)) (previous_hash (es ! i))))
       [0..<length es]"

section \<open>Sessions and the in-memory storage backend\<close>

record session_envelope =
  session_id :: string
  org_id :: string
  agent_id :: string
  agent_version :: "string option"
  environment :: string
  initiated_by :: json
  initiated_at :: string
  closed_at :: "string option"
  compliance_contexts :: "string list"
  retention_days :: int
  metadata :: "json option"

datatype error =
    LedgerNotInitializedError
  | StorageError string
  | SystemError string

text \<open>
  \<^verbatim>\<open>InMemoryStorage\<close>: the session (unset until \<^verbatim>\<open>initialize\<close>), the ordered entries and
  the content-addressed side store.
\<close>

record mem_storage =
  mem_session :: "session_envelope option"
  mem_entries :: "chained_entry list"
  mem_contentStore :: "(string \<times> string) list"

definition new_InMemoryStorage :: mem_storage where
  "new_InMemoryStorage = \<lparr>mem_session = None, mem_entries = [], mem_contentStore = []\<rparr>"

definition mem_initialize :: "session_envelope \<Rightarrow> mem_storage \<Rightarrow> error + mem_storage" where
  "mem_initialize s st = Inr \<lparr>mem_session = Some s, mem_entries = [], mem_contentStore = []\<rparr>"

definition mem_append ::
  "(string \<Rightarrow> string) \<Rightarrow> json \<Rightarrow> mem_storage \<Rightarrow> chained_entry \<times> mem_storage" where
  "mem_append sha256 e st =
     (let lastEntry = (if mem_entries st = [] then None else Some (last (mem_entries st)));
          previousHash = (case lastEntry of Some l \<Rightarrow> entry_hash l | None \<Rightarrow> '''');
          chained = createChainedEntry sha256 e (int (length (mem_entries st))) previousHash
      in (chained, st\<lparr>mem_entries := mem_entries st @ [chained]\<rparr>))"

text \<open>Appending a sequence of entries in order, one \<^verbatim>\<open>append\<close> call after the other.\<close>

fun mem_append_all :: "(string \<Rightarrow> string) \<Rightarrow> json list \<Rightarrow> mem_storage \<Rightarrow> mem_storage" where
  "mem_append_all sha256 [] st = st"
| "mem_append_all sha256 (e # es) st = mem_append_all sha256 es (snd (mem_append sha256 e st))"

text \<open>A storage that has just been initialised for a session.\<close>

definition fresh_mem :: "session_envelope \<Rightarrow> mem_storage" where
  "fresh_mem s = (case mem_initialize s new_InMemoryStorage of Inr st \<Rightarrow> st | Inl _ \<Rightarrow> new_InMemoryStorage)"

section \<open>The Merkle engine\<close>

text \<open>
  The padding loop of \<^verbatim>\<open>buildMerkleTree\<close> (crypto.ts, lines 168-171): while the length is
  not a power of two (\<^verbatim>\<open>length & (length - 1)\<close> is non-zero), push the last hash again, but
  only when that hash is truthy, that is, a non-empty string. The loop has no other exit,
  so it is a partial function: \<open>None\<close> stands for a call that never returns. A length
  is below \<open>2^31\<close>, where the 32-bit \<^verbatim>\<open>&\<close> of JavaScript agrees with \<open>AND\<close> on integers.
\<close>

partial_function (option) pad_loop :: "string list \<Rightarrow> string list option" where
  "pad_loop paddedHashes =
     (if (int (length paddedHashes)) AND (int (length paddedHashes) - 1) \<noteq> 0 then
        (case (if paddedHashes = [] then None else Some (last paddedHashes)) of
           Some lastHash \<Rightarrow>
             if lastHash \<noteq> [] then pad_loop (paddedHashes @ [lastHash])
             else pad_loop paddedHashes
         | None \<Rightarrow> pad_loop paddedHashes)
      else Some paddedHashes)"

declare pad_loop.simps [code]

text \<open>
  One pass of the inner \<^verbatim>\<open>for\<close> loop (lines 179-184): adjacent pairs are concatenated and
  hashed; a missing right neighbour counts as the empty string.
\<close>

fun next_level :: "(string \<Rightarrow> string) \<Rightarrow> string list \<Rightarrow> string list" where
  "next_level sha256 [] = []"
| "next_level sha256 [left] = [sha256 (left @ [])]"
| "next_level sha256 (left # right # rest) = sha256 (left @ right) # next_level sha256 rest"

lemma length_next_level: "length (next_level sha256 xs) = (length xs + 1) div 2"
  by (induction sha256 xs rule: next_level.induct) auto

text \<open>
  The outer \<^verbatim>\<open>while\<close> loop (lines 176-188): as long as the current level has more than one
  hash, the next level is computed and pushed onto the tree.
\<close>

function build_levels ::
  "(string \<Rightarrow> string) \<Rightarrow> string list list \<Rightarrow> string list \<Rightarrow> string list list" where
  "build_levels sha256 tree currentLevel =
     (if length currentLevel > 1 then
        (let nextLevel = next_level sha256 currentLevel
         in build_levels sha256 (tree @ [nextLevel]) nextLevel)
      else tree)"
  by pat_completeness auto
termination
  by (relation "measure (\<lambda>(sha256, tree, currentLevel). length currentLevel)")
     (auto simp: length_next_level)

declare build_levels.simps [simp del]

record merkle_tree =
  root :: string
  tree :: "string list list"

definition buildMerkleTree :: "(string \<Rightarrow> string) \<Rightarrow> string list \<Rightarrow> merkle_tree option" where
  "buildMerkleTree sha256 hashes =
     (if length hashes = 0 then Some \<lparr>root = '''', tree = []\<rparr>
      else
        case pad_loop hashes of
          None \<Rightarrow> None
        | Some paddedHashes \<Rightarrow>
            (let t = build_levels sha256 [paddedHashes] paddedHashes;
                 lastLevel = last t;
                 r = (case lastLevel of [] \<Rightarrow> '''' | h # _ \<Rightarrow> h)
             in Some \<lparr>root = r, tree = t\<rparr>))"

text \<open>
  \<^verbatim>\<open>getMerkleProof\<close> (lines 202-228) visits every level but the last; it records the sibling
  of the current node when that sibling exists, and moves to the parent index.
\<close>

datatype position = Left | Right

record proof_step =
  hash :: string
  position :: position

fun proof_loop :: "string list list \<Rightarrow> int \<Rightarrow> proof_step list" where
  "proof_loop [] currentIndex = []"
| "proof_loop (currentLevelArr # rest) currentIndex =
     (let isLeft = (currentIndex mod 2 = 0);
          siblingIndex = (if isLeft then currentIndex + 1 else currentIndex - 1)
      in (if siblingIndex < int (length currentLevelArr) \<and> 0 \<le> siblingIndex then
            [\<lparr>hash = currentLevelArr ! nat siblingIndex,
              position = (if isLeft then Right else Left)\<rparr>]
          else [])
         @ proof_loop rest (currentIndex div 2))"

definition getMerkleProof :: "string list list \<Rightarrow> int \<Rightarrow> proof_step list" where
  "getMerkleProof t index = proof_loop (butlast t) index"

text \<open>
  \<^verbatim>\<open>verifyMerkleProof\<close> (lines 233-249): one step of the loop, and the comparison of the
  final hash with the root.
\<close>

definition combine_step :: "(string \<Rightarrow> string) \<Rightarrow> string \<Rightarrow> proof_step \<Rightarrow> string" where
  "combine_step sha256 currentHash st =
     (if position st = Left then sha256 (hash st @ currentHash)
      else sha256 (currentHash @ hash st))"

definition verifyMerkleProof ::
  "(string \<Rightarrow> string) \<Rightarrow> string \<Rightarrow> proof_step list \<Rightarrow> string \<Rightarrow> bool" where
  "verifyMerkleProof sha256 leafHash prf r = (foldl (combine_step sha256) leafHash prf = r)"

text \<open>The levels that \<^verbatim>\<open>buildMerkleTree\<close> pushes above a given level, as a list.\<close>

function upper_levels :: "(string \<Rightarrow> string) \<Rightarrow> string list \<Rightarrow> string list list" where
  "upper_levels sha256 currentLevel =
     (if length currentLevel > 1 then
        next_level sha256 currentLevel # upper_levels sha256 (next_level sha256 currentLevel)
      else [])"
  by pat_completeness auto
termination
  by (relation "measure (\<lambda>(sha256, currentLevel). length currentLevel)")
     (auto simp: length_next_level)

declare upper_levels.simps [simp del]

text \<open>A stand-in digest used only to run the definitions on concrete inputs.\<close>

definition toy_sha :: "string \<Rightarrow> string" where
  "toy_sha s = CHR ''#'' # s"

definition demo_session :: session_envelope where
  "demo_session =
     \<lparr>session_id = ''s-1'', org_id = ''org'', agent_id = ''agent'', agent_version = None,
      environment = ''test'', initiated_by = JObj [(''type'', JStr ''user'')],
      initiated_at = ''2024-01-01T00:00:00.000Z'', closed_at = None,
      compliance_contexts = [], retention_days = 2555, metadata = None\<rparr>"

definition demo_payloads :: "json list" where
  "demo_payloads =
     [JObj [(''type'', JStr ''model_call''), (''prompt_tokens'', JNum 10)],
      JObj [(''type'', JStr ''tool_invocation''), (''success'', JBool True)],
      JObj [(''type'', JStr ''decision_point'')]]"

text \<open>The link check that \<^verbatim>\<open>verifyChain\<close> makes at index \<open>j\<close>.\<close>

definition link_at :: "(string \<Rightarrow> string) \<Rightarrow> chained_entry list \<Rightarrow> nat \<Rightarrow> link_result" where
  "link_at sha256 es j =
     verifyChainLink sha256 (es ! j) (if j > 0 then Some (es ! (j - 1)) else None)"

definition link_errors :: "(string \<Rightarrow> string) \<Rightarrow> chained_entry list \<Rightarrow> nat \<Rightarrow> string list" where
  "link_errors sha256 es j =
     (case link_error (link_at sha256 es j) of
        Some msg \<Rightarrow> if \<not> link_valid (link_at sha256 es j) \<and> msg \<noteq> [] then [msg] else []
      | None \<Rightarrow> [])"

text \<open>Replacing the payload of entry \<open>i\<close>, every other field kept.\<close>

definition tamper :: "chained_entry list \<Rightarrow> nat \<Rightarrow> json \<Rightarrow> chained_entry list" where
  "tamper es i e' = es[i := (es ! i)\<lparr>entry := e'\<rparr>]"

definition demo_chain :: "chained_entry list" where
  "demo_chain = mem_entries (mem_append_all toy_sha demo_payloads (fresh_mem demo_session))"

section \<open>Range reads and the other storage backends\<close>

text \<open>
  \<^verbatim>\<open>Array.prototype.slice(start, end)\<close> on integer bounds: a negative bound counts from the
  end of the array, a bound beyond the length is cut to the length, and an empty or
  inverted interval gives the empty array.
\<close>

definition js_slice :: "'a list \<Rightarrow> int \<Rightarrow> int \<Rightarrow> 'a list" where
  "js_slice xs start end =
     (let len = int (length xs);
          k = (if start < 0 then max (len + start) 0 else min start len);
          final = (if end < 0 then max (len + end) 0 else min end len)
      in take (nat (final - k)) (drop (nat k) xs))"

definition mem_getRange :: "mem_storage \<Rightarrow> int \<Rightarrow> int \<Rightarrow> error + chained_entry list" where
  "mem_getRange st start end = Inr (js_slice (mem_entries st) start end)"

definition mem_getAll :: "mem_storage \<Rightarrow> error + chained_entry list" where
  "mem_getAll st = Inr (mem_entries st)"

definition mem_count :: "mem_storage \<Rightarrow> int" where
  "mem_count st = int (length (mem_entries st))"

definition mem_getSession :: "mem_storage \<Rightarrow> session_envelope option" where
  "mem_getSession st = mem_session st"

subsection \<open>The file-system backend\<close>

text \<open>
  \<^verbatim>\<open>FileSystemStorage\<close> keeps a cursor \<open>(entryCount, lastHash)\<close> in memory and the log in a
  line-delimited file. The file system is an association list from paths to files; a file is the list of
  its lines, each line taken as the record that \<^verbatim>\<open>JSON.parse\<close> reads back from it: the
  session header or an entry. Reading a missing file raises.
\<close>

datatype file_line = SessionLine session_envelope | EntryLine chained_entry

type_synonym disk = "(string \<times> file_line list) list"

text \<open>
  The platform under the backend, Node's \<^verbatim>\<open>path\<close> and \<^verbatim>\<open>fs\<close> modules, is a parameter:
  \<^verbatim>\<open>path.join\<close>, which joins and normalises the segments as the operating system has it,
  and, for each of \<^verbatim>\<open>mkdirSync\<close>, \<^verbatim>\<open>writeFileSync\<close> and \<^verbatim>\<open>appendFileSync\<close>, the error code
  with which the call throws on a path and a file system (permissions, a full disk, a file
  where a directory is needed), or \<open>None\<close> when it goes through.
\<close>

record node_fs =
  path_join :: "string list \<Rightarrow> string"
  mkdir_throws :: "string \<Rightarrow> disk \<Rightarrow> string option"
  write_throws :: "string \<Rightarrow> disk \<Rightarrow> string option"
  append_throws :: "string \<Rightarrow> disk \<Rightarrow> string option"

text \<open>
  Every \<^verbatim>\<open>fs\<close> call validates its path first and throws on one that holds a NUL
  character, whatever the file system.
\<close>

definition validatePath :: "string \<Rightarrow> string option" where
  "validatePath path =
     (if CHR 0x00 \<in> set path then Some ''ERR_INVALID_ARG_VALUE'' else None)"

definition mkdirSync :: "node_fs \<Rightarrow> string \<Rightarrow> disk \<Rightarrow> error + disk" where
  "mkdirSync F path d =
     (case validatePath path of
        Some code \<Rightarrow> Inl (SystemError code)
      | None \<Rightarrow>
          (case mkdir_throws F path d of
             Some code \<Rightarrow> Inl (SystemError code)
           | None \<Rightarrow> Inr d))"

definition writeFileSync :: "node_fs \<Rightarrow> string \<Rightarrow> file_line list \<Rightarrow> disk \<Rightarrow> error + disk" where
  "writeFileSync F path content d =
     (case validatePath path of
        Some code \<Rightarrow> Inl (SystemError code)
      | None \<Rightarrow>
          (case write_throws F path d of
             Some code \<Rightarrow> Inl (SystemError code)
           | None \<Rightarrow> Inr (AList.update path content d)))"

definition appendFileSync :: "node_fs \<Rightarrow> string \<Rightarrow> file_line \<Rightarrow> disk \<Rightarrow> error + disk" where
  "appendFileSync F path l d =
     (case validatePath path of
        Some code \<Rightarrow> Inl (SystemError code)
      | None \<Rightarrow>
          (case append_throws F path d of
             Some code \<Rightarrow> Inl (SystemError code)
           | None \<Rightarrow>
               (case map_of d path of
                  Some content \<Rightarrow> Inr (AList.update path (content @ [l]) d)
                | None \<Rightarrow> Inr (AList.update path [l] d))))"

record fs_storage =
  fs_session :: "session_envelope option"
  fs_basePath :: string
  fs_logPath :: "string option"
  fs_entryCount :: int
  fs_lastHash :: string

definition new_FileSystemStorage :: "string \<Rightarrow> fs_storage" where
  "new_FileSystemStorage basePath =
     \<lparr>fs_session = None, fs_basePath = basePath, fs_logPath = None,
      fs_entryCount = 0, fs_lastHash = ''''\<rparr>"

text \<open>
  \<^verbatim>\<open>initialize\<close> (storage.ts, part_002 lines 1418-1432) sets the session and the cursor, creates the
  session directory, sets the log path and writes the header. A throwing \<^verbatim>\<open>mkdirSync\<close> or
  \<^verbatim>\<open>writeFileSync\<close> ends the call with that error and leaves the fields assigned so far,
  so the result is the outcome together with the state of the object and of the disk.
\<close>

definition fs_initialize ::
  "node_fs \<Rightarrow> session_envelope \<Rightarrow> fs_storage \<times> disk
     \<Rightarrow> (error + unit) \<times> (fs_storage \<times> disk)" where
  "fs_initialize F s w =
     (let st1 = (fst w)\<lparr>fs_session := Some s, fs_entryCount := 0, fs_lastHash := ''''\<rparr>;
          d = snd w;
          sessionDir = path_join F [fs_basePath st1, org_id s, session_id s]
      in case mkdirSync F sessionDir d of
           Inl err \<Rightarrow> (Inl err, (st1, d))
         | Inr d1 \<Rightarrow>
             (let path = path_join F [sessionDir, ''audit.jsonl''];
                  st2 = st1\<lparr>fs_logPath := Some path\<rparr>
              in case writeFileSync F path [SessionLine s] d1 of
                   Inl err \<Rightarrow> (Inl err, (st2, d1))
                 | Inr d2 \<Rightarrow> (Inr (), (st2, d2))))"

text \<open>
  \<^verbatim>\<open>append\<close> writes the line before it moves the cursor, so a throwing
  \<^verbatim>\<open>appendFileSync\<close> leaves the object as it was.
\<close>

definition fs_append ::
  "node_fs \<Rightarrow> (string \<Rightarrow> string) \<Rightarrow> json \<Rightarrow> fs_storage \<times> disk
     \<Rightarrow> error + (chained_entry \<times> fs_storage \<times> disk)" where
  "fs_append F sha256 e w =
     (let st = fst w; d = snd w;
          chained = createChainedEntry sha256 e (fs_entryCount st) (fs_lastHash st)
      in case fs_logPath st of
           None \<Rightarrow> Inl (SystemError ''ERR_INVALID_ARG_TYPE'')
         | Some path \<Rightarrow>
             (case appendFileSync F path (EntryLine chained) d of
                Inl err \<Rightarrow> Inl err
              | Inr d1 \<Rightarrow>
                  Inr (chained,
                       st\<lparr>fs_entryCount := fs_entryCount st + 1,
                          fs_lastHash := entry_hash chained\<rparr>,
                       d1)))"

fun entry_lines :: "file_line list \<Rightarrow> chained_entry list" where
  "entry_lines [] = []"
| "entry_lines (EntryLine c # ls) = c # entry_lines ls"
| "entry_lines (SessionLine s # ls) = entry_lines ls"

definition fs_getAll :: "fs_storage \<times> disk \<Rightarrow> error + chained_entry list" where
  "fs_getAll w =
     (case fs_logPath (fst w) of
        None \<Rightarrow> Inl (SystemError ''ERR_INVALID_ARG_TYPE'')
      | Some path \<Rightarrow>
          (case map_of (snd w) path of
             None \<Rightarrow> Inl (SystemError ''ENOENT'')
           | Some content \<Rightarrow> Inr (entry_lines content)))"

definition fs_getRange :: "fs_storage \<times> disk \<Rightarrow> int \<Rightarrow> int \<Rightarrow> error + chained_entry list" where
  "fs_getRange w start end =
     (case fs_getAll w of
        Inl err \<Rightarrow> Inl err
      | Inr entries \<Rightarrow> Inr (js_slice entries start end))"

definition fs_count :: "fs_storage \<times> disk \<Rightarrow> int" where
  "fs_count w = fs_entryCount (fst w)"

definition fs_getSession :: "fs_storage \<times> disk \<Rightarrow> session_envelope option" where
  "fs_getSession w = fs_session (fst w)"

subsection \<open>The batched object-store backend\<close>

text \<open>
  \<^verbatim>\<open>S3Storage\<close> keeps its configuration, all entries and a buffer of pending writes in
  memory. The outside world of the backend is the list of requests it has sent, newest
  first, and the number of interval timers it has started. The network is a parameter:
  for a URL, a body and a world, the reason with which \<^verbatim>\<open>fetch\<close> rejects, or \<open>None\<close> when
  the request is answered (\<^verbatim>\<open>putObject\<close> does not look at the status of the answer).
\<close>

datatype s3_body = SessionBody session_envelope | BatchBody "chained_entry list"

record s3_config =
  endpoint :: string
  bucket :: string

record s3_storage =
  s3_session :: "session_envelope option"
  s3_cfg :: s3_config
  s3_entries :: "chained_entry list"
  s3_pendingWrites :: "chained_entry list"
  s3_flushInterval :: "nat option"

record s3_world =
  s3_puts :: "(string \<times> s3_body) list"
  s3_timers :: nat

type_synonym node_fetch = "string \<Rightarrow> s3_body \<Rightarrow> s3_world \<Rightarrow> string option"

definition new_S3Storage :: "s3_config \<Rightarrow> s3_storage" where
  "new_S3Storage config =
     \<lparr>s3_session = None, s3_cfg = config, s3_entries = [], s3_pendingWrites = [],
      s3_flushInterval = None\<rparr>"

definition putObject ::
  "node_fetch \<Rightarrow> s3_config \<Rightarrow> string \<Rightarrow> s3_body \<Rightarrow> s3_world \<Rightarrow> error + s3_world" where
  "putObject fetch_rejects config key body w =
     (let url = endpoint config @ ''/'' @ bucket config @ ''/'' @ key
      in case fetch_rejects url body w of
           Some reason \<Rightarrow> Inl (SystemError reason)
         | None \<Rightarrow> Inr (w\<lparr>s3_puts := (url, body) # s3_puts w\<rparr>))"

text \<open>
  \<^verbatim>\<open>initialize\<close> (storage.ts, part_002 lines 1545-1558) resets the session and both lists, starts a
  flush timer and then puts the session object; a rejected request rejects the call after
  the reset.
\<close>

definition s3_initialize ::
  "node_fetch \<Rightarrow> session_envelope \<Rightarrow> s3_storage \<times> s3_world
     \<Rightarrow> (error + unit) \<times> (s3_storage \<times> s3_world)" where
  "s3_initialize fetch_rejects s sw =
     (let w = snd sw;
          st1 = (fst sw)\<lparr>s3_session := Some s, s3_entries := [], s3_pendingWrites := [],
                         s3_flushInterval := Some (s3_timers w)\<rparr>;
          w1 = w\<lparr>s3_timers := s3_timers w + 1\<rparr>
      in case putObject fetch_rejects (s3_cfg st1)
                (org_id s @ ''/'' @ session_id s @ ''/session.json'') (SessionBody s) w1 of
           Inl err \<Rightarrow> (Inl err, (st1, w1))
         | Inr w2 \<Rightarrow> (Inr (), (st1, w2)))"

text \<open>
  \<^verbatim>\<open>flush\<close> takes the whole buffer out before it sends it; reading the session of a
  storage that was never initialised is a \<^verbatim>\<open>TypeError\<close>.
\<close>

definition s3_flush ::
  "node_fetch \<Rightarrow> s3_storage \<times> s3_world \<Rightarrow> (error + unit) \<times> (s3_storage \<times> s3_world)" where
  "s3_flush fetch_rejects sw =
     (let st = fst sw; w = snd sw in
      if length (s3_pendingWrites st) = 0 then (Inr (), sw)
      else
        let batch = s3_pendingWrites st;
            st1 = st\<lparr>s3_pendingWrites := []\<rparr>;
            startSeq = sequence (hd batch);
            endSeq = sequence (last batch)
        in case s3_session st of
             None \<Rightarrow> (Inl (SystemError ''TypeError''), (st1, w))
           | Some s \<Rightarrow>
               (case putObject fetch_rejects (s3_cfg st)
                       (org_id s @ ''/'' @ session_id s @ ''/entries/'' @ number_text startSeq
                          @ ''-'' @ number_text endSeq @ ''.jsonl'')
                       (BatchBody batch) w of
                  Inl err \<Rightarrow> (Inl err, (st1, w))
                | Inr w1 \<Rightarrow> (Inr (), (st1, w1))))"

definition s3_append ::
  "node_fetch \<Rightarrow> (string \<Rightarrow> string) \<Rightarrow> json \<Rightarrow> s3_storage \<times> s3_world
     \<Rightarrow> (error + chained_entry) \<times> (s3_storage \<times> s3_world)" where
  "s3_append fetch_rejects sha256 e sw =
     (let st = fst sw;
          lastEntry = (if s3_entries st = [] then None else Some (last (s3_entries st)));
          previousHash = (case lastEntry of Some l \<Rightarrow> entry_hash l | None \<Rightarrow> '''');
          chained = createChainedEntry sha256 e (int (length (s3_entries st))) previousHash;
          st1 = st\<lparr>s3_entries := s3_entries st @ [chained],
                    s3_pendingWrites := s3_pendingWrites st @ [chained]\<rparr>
      in if length (s3_pendingWrites st1) \<ge> 100
         then (case s3_flush fetch_rejects (st1, snd sw) of
                 (Inl err, sw1) \<Rightarrow> (Inl err, sw1)
               | (Inr u, sw1) \<Rightarrow> (Inr chained, sw1))
         else (Inr chained, (st1, snd sw)))"

definition s3_getRange ::
  "s3_storage \<times> s3_world \<Rightarrow> int \<Rightarrow> int \<Rightarrow> error + chained_entry list" where
  "s3_getRange sw start end = Inr (js_slice (s3_entries (fst sw)) start end)"

definition s3_getAll :: "s3_storage \<times> s3_world \<Rightarrow> error + chained_entry list" where
  "s3_getAll sw = Inr (s3_entries (fst sw))"

definition s3_count :: "s3_storage \<times> s3_world \<Rightarrow> int" where
  "s3_count sw = int (length (s3_entries (fst sw)))"

definition s3_getSession :: "s3_storage \<times> s3_world \<Rightarrow> session_envelope option" where
  "s3_getSession sw = s3_session (fst sw)"

text \<open>
  The reading of \<^verbatim>\<open>getRange\<close> in the specification: the persisted entries whose sequence
  number lies in \<open>[start, end)\<close>, in order.
\<close>

definition getRange_spec :: "chained_entry list \<Rightarrow> int \<Rightarrow> int \<Rightarrow> chained_entry list" where
  "getRange_spec es start end = filter (\<lambda>e. start \<le> sequence e \<and> sequence e < end) es"

definition demo_mem :: mem_storage where
  "demo_mem = mem_append_all toy_sha demo_payloads (fresh_mem demo_session)"

text \<open>
  A stand-in platform for the examples: \<^verbatim>\<open>path.join\<close> on segments that need no
  normalising, a file system on which only the path validation fails, and a network that
  is down for one endpoint.
\<close>

fun join_slash :: "string list \<Rightarrow> string" where
  "join_slash [] = ''.''"
| "join_slash [p] = p"
| "join_slash (p # ps) = p @ ''/'' @ join_slash ps"

definition toy_fs :: node_fs where
  "toy_fs = \<lparr>path_join = join_slash, mkdir_throws = (\<lambda>p d. None),
             write_throws = (\<lambda>p d. None), append_throws = (\<lambda>p d. None)\<rparr>"

definition toy_fetch :: node_fetch where
  "toy_fetch url body w = (if take 11 url = ''http://down'' then Some ''fetch failed'' else None)"

definition demo_config :: s3_config where
  "demo_config = \<lparr>endpoint = ''http://s3.local'', bucket = ''audit''\<rparr>"

definition demo_fs :: "fs_storage \<times> disk" where
  "demo_fs =
     (let w0 = snd (fs_initialize toy_fs demo_session (new_FileSystemStorage ''/var/audit'', []))
      in case fs_append toy_fs toy_sha (JNum 1) w0 of
           Inr (c, w1) \<Rightarrow>
             (case fs_append toy_fs toy_sha (JNum 2) w1 of Inr (c', w2) \<Rightarrow> w2 | Inl err \<Rightarrow> w1)
         | Inl err \<Rightarrow> w0)"

definition demo_mem10 :: mem_storage where
  "demo_mem10 = mem_append_all toy_sha (replicate 10 (JNum 7)) (fresh_mem demo_session)"

definition demo_s3 :: "s3_storage \<times> s3_world" where
  "demo_s3 =
     snd (s3_append toy_fetch toy_sha (JNum 1)
            (snd (s3_initialize toy_fetch demo_session
                    (new_S3Storage demo_config, \<lparr>s3_puts = [], s3_timers = 0\<rparr>))))"

text \<open>A session whose identifier holds a NUL character, and a storage whose endpoint is down.\<close>

definition nul_session :: session_envelope where
  "nul_session = demo_session\<lparr>session_id := [CHR ''s'', CHR 0x00]\<rparr>"

definition down_s3 :: "s3_storage \<times> s3_world" where
  "down_s3 = ((fst demo_s3)\<lparr>s3_cfg := \<lparr>endpoint = ''http://down'', bucket = ''audit''\<rparr>\<rparr>,
      snd demo_s3)"

section \<open>Equality of values up to key order\<close>

text \<open>
  Two values are equal up to the insertion order of object keys when they are the same
  atom, arrays with pairwise equal elements in the same order, or objects with the same
  set of keys (each key once) and equal values under every key.
\<close>

inductive json_equiv :: "json \<Rightarrow> json \<Rightarrow> bool" where
  equiv_null: "json_equiv JNull JNull"
| equiv_bool: "json_equiv (JBool b) (JBool b)"
| equiv_num: "json_equiv (JNum n) (JNum n)"
| equiv_str: "json_equiv (JStr s) (JStr s)"
| equiv_arr: "list_all2 json_equiv xs ys \<Longrightarrow> json_equiv (JArr xs) (JArr ys)"
| equiv_obj:
    "distinct (map fst kvs) \<Longrightarrow> distinct (map fst kvs') \<Longrightarrow>
     set (map fst kvs) = set (map fst kvs') \<Longrightarrow>
     (\<forall>k \<in> set (map fst kvs).
        \<exists>x y. map_of kvs k = Some x \<and> map_of kvs' k = Some y \<and> json_equiv x y) \<Longrightarrow>
     json_equiv (JObj kvs) (JObj kvs')"

text \<open>A digest in the format of \<^verbatim>\<open>digest('hex')\<close> for SHA-256: 64 lower-case hex digits.\<close>

definition is_hex_digest :: "string \<Rightarrow> bool" where
  "is_hex_digest d = (length d = 64 \<and> list_all (\<lambda>c. c \<in> set ''0123456789abcdef'') d)"

text \<open>A second stand-in digest, of the format of a SHA-256 hex digest.\<close>

definition toy_hex_sha :: "string \<Rightarrow> string" where
  "toy_hex_sha s = replicate 63 CHR ''0'' @ [digit_char (int (length s) mod 16)]"

definition demo_obj1 :: json where
  "demo_obj1 = JObj [(''outer'', JObj [(''b'', JNum 2), (''a'', JNum 1)]), (''x'', JNum 10)]"

definition demo_obj2 :: json where
  "demo_obj2 = JObj [(''x'', JNum 10), (''outer'', JObj [(''a'', JNum 1), (''b'', JNum 2)])]"

section \<open>Signatures\<close>

text \<open>
  The signature functions of \<^verbatim>\<open>crypto.ts\<close> call Node's \<^verbatim>\<open>crypto\<close> module and \<^verbatim>\<open>Buffer\<close>.
  These primitives are a parameter \<open>P\<close>: the two base64 conversions, the two key parsers
  (\<open>None\<close> when they throw on malformed key material), \<^verbatim>\<open>crypto.sign\<close> and
  \<^verbatim>\<open>crypto.verify\<close> (\<open>None\<close> when they throw). Whatever randomness a signature scheme may
  draw is the first argument of \<open>cryptoSign\<close>.
\<close>

record ('sk, 'pk, 'rnd) node_crypto =
  base64_decode :: "string \<Rightarrow> string"
  base64_encode :: "string \<Rightarrow> string"
  createPrivateKey :: "string \<Rightarrow> 'sk option"
  createPublicKey :: "string \<Rightarrow> 'pk option"
  cryptoSign :: "'rnd \<Rightarrow> string \<Rightarrow> 'sk \<Rightarrow> string option"
  cryptoVerify :: "string \<Rightarrow> 'pk \<Rightarrow> string \<Rightarrow> bool option"

text \<open>\<^verbatim>\<open>sign\<close> (lines 276-281) has no handler: what the primitives throw, it throws.\<close>

definition sign ::
  "('sk, 'pk, 'rnd) node_crypto \<Rightarrow> 'rnd \<Rightarrow> string \<Rightarrow> string \<Rightarrow> error + string" where
  "sign P rnd data privateKeyBase64 =
     (let privateKeyPem = base64_decode P privateKeyBase64 in
      case createPrivateKey P privateKeyPem of
        None \<Rightarrow> Inl (SystemError ''createPrivateKey'')
      | Some privateKeyObj \<Rightarrow>
          (case cryptoSign P rnd data privateKeyObj of
             None \<Rightarrow> Inl (SystemError ''sign'')
           | Some sg \<Rightarrow> Inr (base64_encode P sg)))"

text \<open>The body of the \<^verbatim>\<open>try\<close> block of \<^verbatim>\<open>verify\<close> (lines 288-290).\<close>

definition verify_try ::
  "('sk, 'pk, 'rnd) node_crypto \<Rightarrow> string \<Rightarrow> string \<Rightarrow> string \<Rightarrow> error + bool" where
  "verify_try P data sg publicKeyBase64 =
     (let publicKeyPem = base64_decode P publicKeyBase64 in
      case createPublicKey P publicKeyPem of
        None \<Rightarrow> Inl (SystemError ''createPublicKey'')
      | Some publicKeyObj \<Rightarrow>
          (case cryptoVerify P data publicKeyObj (base64_decode P sg) of
             None \<Rightarrow> Inl (SystemError ''verify'')
           | Some b \<Rightarrow> Inr b))"

text \<open>\<^verbatim>\<open>verify\<close> (lines 286-294): the \<^verbatim>\<open>catch\<close> turns every exception into \<^verbatim>\<open>false\<close>.\<close>

definition verify ::
  "('sk, 'pk, 'rnd) node_crypto \<Rightarrow> string \<Rightarrow> string \<Rightarrow> string \<Rightarrow> error + bool" where
  "verify P data sg publicKeyBase64 =
     (case verify_try P data sg publicKeyBase64 of
        Inl err \<Rightarrow> Inr False
      | Inr b \<Rightarrow> Inr b)"

record org_signature =
  public_key :: string
  signature :: string
  signed_at :: string

record integrity =
  chain_valid :: bool
  merkle_valid :: bool
  signature_valid :: "bool option"
  verified_at :: string

record audit_log =
  version :: string
  log_session :: session_envelope
  log_entries :: "chained_entry list"
  merkle_root :: "string option"
  log_org_signature :: "org_signature option"
  log_integrity :: "integrity option"

text \<open>An optional property of an object literal: absent when its value is \<^verbatim>\<open>undefined\<close>.\<close>

definition opt_field :: "string \<Rightarrow> json option \<Rightarrow> (string \<times> json) list" where
  "opt_field k v = (case v of None \<Rightarrow> [] | Some x \<Rightarrow> [(k, x)])"

text \<open>
  The summary that is signed (lines 304-309 and 324-329): \<^verbatim>\<open>JSON.stringify\<close>, without a
  replacer, of \<^verbatim>\<open>{session_id, merkle_root, entry_count, closed_at}\<close>.
\<close>

definition dataToSign :: "audit_log \<Rightarrow> string" where
  "dataToSign log =
     json_text False
       (JObj ([(''session_id'', JStr (session_id (log_session log)))]
              @ opt_field ''merkle_root'' (map_option JStr (merkle_root log))
              @ [(''entry_count'', JNum (int (length (log_entries log))))]
              @ opt_field ''closed_at'' (map_option JStr (closed_at (log_session log)))))"

text \<open>\<^verbatim>\<open>signAuditLog\<close>; \<open>now\<close> is the reading of the clock for \<^verbatim>\<open>signed_at\<close>.\<close>

definition signAuditLog ::
  "('sk, 'pk, 'rnd) node_crypto \<Rightarrow> 'rnd \<Rightarrow> string \<Rightarrow> audit_log \<Rightarrow> string \<Rightarrow> string
     \<Rightarrow> error + org_signature" where
  "signAuditLog P rnd now log privateKeyBase64 publicKeyBase64 =
     (case sign P rnd (dataToSign log) privateKeyBase64 of
        Inl err \<Rightarrow> Inl err
      | Inr sg \<Rightarrow> Inr \<lparr>public_key = publicKeyBase64, signature = sg, signed_at = now\<rparr>)"

definition verifyAuditLogSignature ::
  "('sk, 'pk, 'rnd) node_crypto \<Rightarrow> audit_log \<Rightarrow> error + bool" where
  "verifyAuditLogSignature P log =
     (case log_org_signature log of
        None \<Rightarrow> Inr False
      | Some s \<Rightarrow> verify P (dataToSign log) (signature s) (public_key s))"

text \<open>
  What is assumed of an Ed25519 key pair, given as the base64 strings that
  \<^verbatim>\<open>generateKeyPair\<close> returns: both keys parse, signing succeeds, a signature survives the
  base64 round trip, and a signature of some data verifies under the public key for that
  data and for no other data.
\<close>

definition keys_match ::
  "('sk, 'pk, 'rnd) node_crypto \<Rightarrow> string \<Rightarrow> string \<Rightarrow> bool" where
  "keys_match P privateKeyBase64 publicKeyBase64 =
     (\<exists>sk pk.
        createPrivateKey P (base64_decode P privateKeyBase64) = Some sk
        \<and> createPublicKey P (base64_decode P publicKeyBase64) = Some pk
        \<and> (\<forall>rnd d. \<exists>sg. cryptoSign P rnd d sk = Some sg
               \<and> base64_decode P (base64_encode P sg) = sg
               \<and> (\<forall>d'. cryptoVerify P d' pk sg = Some (d' = d))))"

text \<open>
  Stand-in primitives used only to run the definitions: keys are any strings other than
  \<^verbatim>\<open>bad\<close>, a signature is the key followed by the data, and a signature decodes only
  when it is not \<^verbatim>\<open>torn\<close>.
\<close>

definition toy_crypto :: "(string, string, unit) node_crypto" where
  "toy_crypto =
     \<lparr>base64_decode = (\<lambda>s. s),
      base64_encode = (\<lambda>s. s),
      createPrivateKey = (\<lambda>s. if s = ''bad'' then None else Some s),
      createPublicKey = (\<lambda>s. if s = ''bad'' then None else Some s),
      cryptoSign = (\<lambda>rnd d sk. Some (sk @ ''|'' @ d)),
      cryptoVerify = (\<lambda>d pk sg. if sg = ''torn'' then None else Some (sg = pk @ ''|'' @ d))\<rparr>"

text \<open>
  The idealisation of Ed25519 under which a signature made with one key pair is rejected
  on every mismatch. For the parsed key pair, signing is deterministic and never throws,
  the signature survives the base64 round trip and is accepted for its data; whatever is
  accepted under the public key is the signature of its data and of no other data
  (signatures cannot be forged, neither for other data nor as a second signature of the
  same data); and no other public key that parses accepts the signature for any data.
\<close>

definition ed25519_ideal ::
  "('sk, 'pk, 'rnd) node_crypto \<Rightarrow> string \<Rightarrow> string \<Rightarrow> bool" where
  "ed25519_ideal P privateKeyBase64 publicKeyBase64 =
     (\<exists>sk pk.
        createPrivateKey P (base64_decode P privateKeyBase64) = Some sk
        \<and> createPublicKey P (base64_decode P publicKeyBase64) = Some pk
        \<and> (\<forall>d. \<exists>sg. (\<forall>rnd. cryptoSign P rnd d sk = Some sg)
               \<and> base64_decode P (base64_encode P sg) = sg
               \<and> cryptoVerify P d pk sg = Some True
               \<and> (\<forall>d' s'. cryptoVerify P d' pk s' = Some True \<longrightarrow> (d' = d) = (s' = sg))
               \<and> (\<forall>k' pk' d'. createPublicKey P (base64_decode P k') = Some pk' \<and> pk' \<noteq> pk
                      \<longrightarrow> cryptoVerify P d' pk' sg \<noteq> Some True)))"

text \<open>
  Stand-in primitives that meet the idealisation: as above, but key material that holds
  the separator \<^verbatim>\<open>|\<close> does not parse, so that a signature names its key and its data.
\<close>

definition toy_ed25519 :: "(string, string, unit) node_crypto" where
  "toy_ed25519 =
     \<lparr>base64_decode = (\<lambda>s. s),
      base64_encode = (\<lambda>s. s),
      createPrivateKey = (\<lambda>s. if s = ''bad'' \<or> CHR ''|'' \<in> set s then None else Some s),
      createPublicKey = (\<lambda>s. if s = ''bad'' \<or> CHR ''|'' \<in> set s then None else Some s),
      cryptoSign = (\<lambda>rnd d sk. Some (sk @ ''|'' @ d)),
      cryptoVerify = (\<lambda>d pk sg. if sg = ''torn'' then None else Some (sg = pk @ ''|'' @ d))\<rparr>"

definition demo_log :: audit_log where
  "demo_log =
     \<lparr>version = ''1.0.0'',
      log_session = demo_session\<lparr>closed_at := Some ''2024-01-01T00:10:00.000Z''\<rparr>,
      log_entries = demo_chain,
      merkle_root = Some ''00ff'',
      log_org_signature = None,
      log_integrity = None\<rparr>"

section \<open>The ledger\<close>

text \<open>
  The \<^verbatim>\<open>Ledger\<close> class (index.ts, lines 145-473) owns one storage backend through the
  \<^verbatim>\<open>StorageBackend\<close> interface. The interface is a record of operations on a backend state
  \<open>'s\<close>. The result of an asynchronous operation is \<open>None\<close> when it never settles;
  otherwise it is \<open>Inl err\<close> when the promise rejects and \<open>Inr x\<close> when it resolves,
  and an operation that may change the backend returns the state it leaves behind in
  either case.
\<close>

record export_options =
  format :: string
  include_content :: "bool option"
  redact_pii :: "bool option"
  compress :: "bool option"

record 's backend =
  b_initialize :: "session_envelope \<Rightarrow> 's \<Rightarrow> ((error + unit) \<times> 's) option"
  b_append :: "json \<Rightarrow> 's \<Rightarrow> ((error + chained_entry) \<times> 's) option"
  b_getRange :: "int \<Rightarrow> int \<Rightarrow> 's \<Rightarrow> (error + chained_entry list) option"
  b_getAll :: "'s \<Rightarrow> (error + chained_entry list) option"
  b_count :: "'s \<Rightarrow> (error + int) option"
  b_verify :: "'s \<Rightarrow> (error + bool \<times> string list) option"
  b_close :: "string option \<Rightarrow> string option \<Rightarrow> 's \<Rightarrow> ((error + audit_log) \<times> 's) option"
  b_export :: "export_options \<Rightarrow> 's \<Rightarrow> ((error + string) \<times> 's) option"
  b_getSession :: "'s \<Rightarrow> error + session_envelope option"

record signing_keys =
  keys_publicKey :: string
  keys_privateKey :: string

record ledger_config =
  orgId :: string
  agentId :: string
  agentVersion :: "string option"
  cfg_environment :: string
  compliance :: "string list"
  retentionDays :: "int option"
  snapshotInterval :: "int option"
  cfg_signingKeys :: "signing_keys option"

record 's ledger =
  storage :: 's
  config :: ledger_config
  initialized :: bool
  entryCount :: int
  signingKeys :: "signing_keys option"

text \<open>
  The constructor: \<open>s0\<close> is the state of the backend that the configuration selects
  (a new in-memory, file or object-store backend, or the one passed in).
\<close>

definition new_Ledger :: "ledger_config \<Rightarrow> 's \<Rightarrow> 's ledger" where
  "new_Ledger cfg s0 =
     \<lparr>storage = s0, config = cfg, initialized = False, entryCount = 0,
      signingKeys = cfg_signingKeys cfg\<rparr>"

definition ensureInitialized :: "'s ledger \<Rightarrow> error + unit" where
  "ensureInitialized L = (if \<not> initialized L then Inl LedgerNotInitializedError else Inr ())"

text \<open>\<^verbatim>\<open>hashContent\<close> (crypto.ts, lines 50-52): the digest of the bytes of the content.\<close>

definition hashContent :: "(string \<Rightarrow> string) \<Rightarrow> string \<Rightarrow> string" where
  "hashContent sha256 content = sha256 content"

subsection \<open>The entries of the typed log operations\<close>

text \<open>
  Every operation stamps its entry with a fresh id and the current time; \<open>stamp\<close> is the
  pair that \<^verbatim>\<open>generateId()\<close> and \<^verbatim>\<open>timestamp()\<close> return.
\<close>

record model_call_params =
  mc_provider :: string
  mc_modelId :: string
  mc_modelVersion :: "string option"
  mc_parameters :: "json option"
  mc_promptHash :: string
  mc_promptTokens :: int
  mc_completionHash :: string
  mc_completionTokens :: int
  mc_latencyMs :: int
  mc_costUsd :: "int option"
  mc_streamed :: "bool option"
  mc_cacheStatus :: "string option"
  mc_error :: "json option"

definition model_call_entry :: "string \<times> string \<Rightarrow> model_call_params \<Rightarrow> json" where
  "model_call_entry stamp p =
     JObj ([(''type'', JStr ''model_call''),
            (''entry_id'', JStr (fst stamp)),
            (''timestamp'', JStr (snd stamp)),
            (''provider'', JStr (mc_provider p)),
            (''model_id'', JStr (mc_modelId p))]
           @ opt_field ''model_version'' (map_option JStr (mc_modelVersion p))
           @ [(''parameters'', (case mc_parameters p of Some x \<Rightarrow> x | None \<Rightarrow> JObj [])),
              (''prompt_hash'', JStr (mc_promptHash p)),
              (''prompt_tokens'', JNum (mc_promptTokens p)),
              (''completion_hash'', JStr (mc_completionHash p)),
              (''completion_tokens'', JNum (mc_completionTokens p)),
              (''latency_ms'', JNum (mc_latencyMs p))]
           @ opt_field ''cost_usd'' (map_option JNum (mc_costUsd p))
           @ [(''streamed'', JBool (case mc_streamed p of Some b \<Rightarrow> b | None \<Rightarrow> False))]
           @ opt_field ''cache_status'' (map_option JStr (mc_cacheStatus p))
           @ opt_field ''error'' (mc_error p))"

record tool_invocation_params =
  ti_toolName :: string
  ti_toolVersion :: "string option"
  ti_requestedBy :: "string option"
  ti_inputHash :: string
  ti_inputSchemaRef :: "string option"
  ti_outputHash :: string
  ti_durationMs :: int
  ti_success :: bool
  ti_error :: "json option"
  ti_resourcesAccessed :: "json option"

definition tool_invocation_entry :: "string \<times> string \<Rightarrow> tool_invocation_params \<Rightarrow> json" where
  "tool_invocation_entry stamp p =
     JObj ([(''type'', JStr ''tool_invocation''),
            (''entry_id'', JStr (fst stamp)),
            (''timestamp'', JStr (snd stamp)),
            (''tool_name'', JStr (ti_toolName p))]
           @ opt_field ''tool_version'' (map_option JStr (ti_toolVersion p))
           @ opt_field ''requested_by'' (map_option JStr (ti_requestedBy p))
           @ [(''input_hash'', JStr (ti_inputHash p))]
           @ opt_field ''input_schema_ref'' (map_option JStr (ti_inputSchemaRef p))
           @ [(''output_hash'', JStr (ti_outputHash p)),
              (''duration_ms'', JNum (ti_durationMs p)),
              (''success'', JBool (ti_success p))]
           @ opt_field ''error'' (ti_error p)
           @ opt_field ''resources_accessed'' (ti_resourcesAccessed p))"

record decision_params =
  dp_decisionId :: string
  dp_category :: string
  dp_optionsConsidered :: json
  dp_selectedOption :: string
  dp_reasoningHash :: string
  dp_confidenceScore :: "int option"
  dp_humanReviewRequired :: "bool option"
  dp_triggeredBy :: "json option"

definition decision_point_entry :: "string \<times> string \<Rightarrow> decision_params \<Rightarrow> json" where
  "decision_point_entry stamp p =
     JObj ([(''type'', JStr ''decision_point''),
            (''entry_id'', JStr (fst stamp)),
            (''timestamp'', JStr (snd stamp)),
            (''decision_id'', JStr (dp_decisionId p)),
            (''category'', JStr (dp_category p)),
            (''options_considered'', dp_optionsConsidered p),
            (''selected_option'', JStr (dp_selectedOption p)),
            (''reasoning_hash'', JStr (dp_reasoningHash p))]
           @ opt_field ''confidence_score'' (map_option JNum (dp_confidenceScore p))
           @ [(''human_review_required'',
               JBool (case dp_humanReviewRequired p of Some b \<Rightarrow> b | None \<Rightarrow> False))]
           @ opt_field ''triggered_by'' (dp_triggeredBy p))"

record approval_params =
  ha_approverId :: string
  ha_approverRole :: string
  ha_decisionRef :: string
  ha_approvalType :: string
  ha_modificationHash :: "string option"
  ha_commentHash :: "string option"
  ha_attestationSignature :: "string option"
  ha_reviewDurationSeconds :: "int option"

definition human_approval_entry :: "string \<times> string \<Rightarrow> approval_params \<Rightarrow> json" where
  "human_approval_entry stamp p =
     JObj ([(''type'', JStr ''human_approval''),
            (''entry_id'', JStr (fst stamp)),
            (''timestamp'', JStr (snd stamp)),
            (''approver_id'', JStr (ha_approverId p)),
            (''approver_role'', JStr (ha_approverRole p)),
            (''decision_ref'', JStr (ha_decisionRef p)),
            (''approval_type'', JStr (ha_approvalType p))]
           @ opt_field ''modification_hash'' (map_option JStr (ha_modificationHash p))
           @ opt_field ''comment_hash'' (map_option JStr (ha_commentHash p))
           @ opt_field ''attestation_signature'' (map_option JStr (ha_attestationSignature p))
           @ opt_field ''review_duration_seconds'' (map_option JNum (ha_reviewDurationSeconds p)))"

record snapshot_params =
  ss_trigger :: string
  ss_stateHash :: string
  ss_schemaVersion :: string
  ss_metrics :: "json option"

definition state_snapshot_entry :: "string \<times> string \<Rightarrow> snapshot_params \<Rightarrow> json" where
  "state_snapshot_entry stamp p =
     JObj ([(''type'', JStr ''state_snapshot''),
            (''entry_id'', JStr (fst stamp)),
            (''timestamp'', JStr (snd stamp)),
            (''trigger'', JStr (ss_trigger p)),
            (''state_hash'', JStr (ss_stateHash p)),
            (''schema_version'', JStr (ss_schemaVersion p))]
           @ opt_field ''metrics'' (ss_metrics p))"

record content_params =
  sc_contentType :: string
  sc_parentEntryId :: string
  sc_content :: string
  sc_storageUri :: "string option"
  sc_containsPii :: "bool option"
  sc_piiTypes :: "json option"

definition content_reference_entry ::
  "(string \<Rightarrow> string) \<Rightarrow> string \<times> string \<Rightarrow> content_params \<Rightarrow> json" where
  "content_reference_entry sha256 stamp p =
     (let contentBuffer = sc_content p in
      JObj ([(''type'', JStr ''content_reference''),
             (''entry_id'', JStr (fst stamp)),
             (''timestamp'', JStr (snd stamp)),
             (''content_type'', JStr (sc_contentType p)),
             (''parent_entry_id'', JStr (sc_parentEntryId p)),
             (''content_hash'', JStr (hashContent sha256 contentBuffer)),
             (''size_bytes'', JNum (int (length contentBuffer)))]
            @ opt_field ''storage_uri'' (map_option JStr (sc_storageUri p))
            @ [(''contains_pii'',
                JBool (case sc_containsPii p of Some b \<Rightarrow> b | None \<Rightarrow> False))]
            @ opt_field ''pii_types'' (sc_piiTypes p)))"

subsection \<open>Appending, with the periodic snapshot\<close>

text \<open>
  The test \<^verbatim>\<open>snapshotInterval && entryCount % snapshotInterval === 0\<close>: the interval is
  set and not zero, and divides the count.
\<close>

definition snapshot_due :: "int option \<Rightarrow> int \<Rightarrow> bool" where
  "snapshot_due interval n =
     (case interval of None \<Rightarrow> False | Some k \<Rightarrow> k \<noteq> 0 \<and> n mod k = 0)"

text \<open>The parameters of the periodic snapshot that \<^verbatim>\<open>append\<close> takes (lines 404-408).\<close>

definition periodic_snapshot :: "(string \<Rightarrow> string) \<Rightarrow> int \<Rightarrow> snapshot_params" where
  "periodic_snapshot sha256 n =
     \<lparr>ss_trigger = ''periodic'',
      ss_stateHash = hashContent sha256 (json_text False (JObj [(''count'', JNum n)])),
      ss_schemaVersion = ''1.0.0'',
      ss_metrics = None\<rparr>"

text \<open>
  The private \<^verbatim>\<open>append\<close> (lines 398-412). When a snapshot is due it calls \<^verbatim>\<open>snapshot\<close>,
  which checks the initialisation, builds its entry and calls \<^verbatim>\<open>append\<close> again; that
  nested call is written out here. \<open>stamps k\<close> is the id and time of the \<open>k\<close>-th entry
  created during the operation. Nothing bounds the recursion (with interval 1 every
  append is followed by a snapshot), so the function is partial.
\<close>

partial_function (option) ledger_append ::
  "'s backend \<Rightarrow> (string \<Rightarrow> string) \<Rightarrow> (nat \<Rightarrow> string \<times> string) \<Rightarrow> nat \<Rightarrow> json \<Rightarrow> 's ledger
     \<Rightarrow> ((error + chained_entry) \<times> 's ledger) option" where
  "ledger_append B sha256 stamps k e L =
     b_append B e (storage L) \<bind>
       (\<lambda>(r, s').
          case r of
            Inl err \<Rightarrow> Some (Inl err, L\<lparr>storage := s'\<rparr>)
          | Inr chained \<Rightarrow>
              (let L1 = L\<lparr>storage := s', entryCount := entryCount L + 1\<rparr> in
               if snapshot_due (snapshotInterval (config L1)) (entryCount L1) then
                 (case ensureInitialized L1 of
                    Inl err \<Rightarrow> Some (Inl err, L1)
                  | Inr u \<Rightarrow>
                      ledger_append B sha256 stamps (k + 1)
                        (state_snapshot_entry (stamps (k + 1))
                           (periodic_snapshot sha256 (entryCount L1)))
                        L1
                      \<bind> (\<lambda>(r2, L2).
                             case r2 of
                               Inl err \<Rightarrow> Some (Inl err, L2)
                             | Inr c2 \<Rightarrow> Some (Inr chained, L2)))
               else Some (Inr chained, L1)))"

subsection \<open>The public operations\<close>

definition start ::
  "'s backend \<Rightarrow> string \<times> string \<Rightarrow> json \<Rightarrow> json option \<Rightarrow> 's ledger
     \<Rightarrow> ((error + string) \<times> 's ledger) option" where
  "start B stamp initiatedBy meta L =
     (let cfg = config L;
          session =
            \<lparr>session_id = fst stamp, org_id = orgId cfg, agent_id = agentId cfg,
             agent_version = agentVersion cfg, environment = cfg_environment cfg,
             initiated_by = initiatedBy, initiated_at = snd stamp, closed_at = None,
             compliance_contexts = compliance cfg,
             retention_days = (case retentionDays cfg of Some d \<Rightarrow> d | None \<Rightarrow> 2555),
             metadata = meta\<rparr>
      in b_initialize B session (storage L) \<bind>
           (\<lambda>(r, s').
              case r of
                Inl err \<Rightarrow> Some (Inl err, L\<lparr>storage := s'\<rparr>)
              | Inr u \<Rightarrow>
                  Some (Inr (session_id session),
                        L\<lparr>storage := s', initialized := True, entryCount := 0\<rparr>)))"

definition logModelCall ::
  "'s backend \<Rightarrow> (string \<Rightarrow> string) \<Rightarrow> (nat \<Rightarrow> string \<times> string) \<Rightarrow> model_call_params
     \<Rightarrow> 's ledger \<Rightarrow> ((error + chained_entry) \<times> 's ledger) option" where
  "logModelCall B sha256 stamps p L =
     (case ensureInitialized L of
        Inl err \<Rightarrow> Some (Inl err, L)
      | Inr u \<Rightarrow> ledger_append B sha256 stamps 0 (model_call_entry (stamps 0) p) L)"

definition logToolInvocation ::
  "'s backend \<Rightarrow> (string \<Rightarrow> string) \<Rightarrow> (nat \<Rightarrow> string \<times> string) \<Rightarrow> tool_invocation_params
     \<Rightarrow> 's ledger \<Rightarrow> ((error + chained_entry) \<times> 's ledger) option" where
  "logToolInvocation B sha256 stamps p L =
     (case ensureInitialized L of
        Inl err \<Rightarrow> Some (Inl err, L)
      | Inr u \<Rightarrow> ledger_append B sha256 stamps 0 (tool_invocation_entry (stamps 0) p) L)"

definition logDecision ::
  "'s backend \<Rightarrow> (string \<Rightarrow> string) \<Rightarrow> (nat \<Rightarrow> string \<times> string) \<Rightarrow> decision_params
     \<Rightarrow> 's ledger \<Rightarrow> ((error + chained_entry) \<times> 's ledger) option" where
  "logDecision B sha256 stamps p L =
     (case ensureInitialized L of
        Inl err \<Rightarrow> Some (Inl err, L)
      | Inr u \<Rightarrow> ledger_append B sha256 stamps 0 (decision_point_entry (stamps 0) p) L)"

definition logApproval ::
  "'s backend \<Rightarrow> (string \<Rightarrow> string) \<Rightarrow> (nat \<Rightarrow> string \<times> string) \<Rightarrow> approval_params
     \<Rightarrow> 's ledger \<Rightarrow> ((error + chained_entry) \<times> 's ledger) option" where
  "logApproval B sha256 stamps p L =
     (case ensureInitialized L of
        Inl err \<Rightarrow> Some (Inl err, L)
      | Inr u \<Rightarrow> ledger_append B sha256 stamps 0 (human_approval_entry (stamps 0) p) L)"

definition snapshot ::
  "'s backend \<Rightarrow> (string \<Rightarrow> string) \<Rightarrow> (nat \<Rightarrow> string \<times> string) \<Rightarrow> snapshot_params
     \<Rightarrow> 's ledger \<Rightarrow> ((error + chained_entry) \<times> 's ledger) option" where
  "snapshot B sha256 stamps p L =
     (case ensureInitialized L of
        Inl err \<Rightarrow> Some (Inl err, L)
      | Inr u \<Rightarrow> ledger_append B sha256 stamps 0 (state_snapshot_entry (stamps 0) p) L)"

definition storeContent ::
  "'s backend \<Rightarrow> (string \<Rightarrow> string) \<Rightarrow> (nat \<Rightarrow> string \<times> string) \<Rightarrow> content_params
     \<Rightarrow> 's ledger \<Rightarrow> ((error + chained_entry) \<times> 's ledger) option" where
  "storeContent B sha256 stamps p L =
     (case ensureInitialized L of
        Inl err \<Rightarrow> Some (Inl err, L)
      | Inr u \<Rightarrow> ledger_append B sha256 stamps 0 (content_reference_entry sha256 (stamps 0) p) L)"

definition ledger_verify :: "'s backend \<Rightarrow> 's ledger \<Rightarrow> (error + bool \<times> string list) option" where
  "ledger_verify B L =
     (case ensureInitialized L of
        Inl err \<Rightarrow> Some (Inl err)
      | Inr u \<Rightarrow> b_verify B (storage L))"

definition getEntries ::
  "'s backend \<Rightarrow> int option \<Rightarrow> int option \<Rightarrow> 's ledger \<Rightarrow> (error + chained_entry list) option" where
  "getEntries B start' end' L =
     (case ensureInitialized L of
        Inl err \<Rightarrow> Some (Inl err)
      | Inr u \<Rightarrow>
          (case (start', end') of
             (Some a, Some b) \<Rightarrow> b_getRange B a b (storage L)
           | _ \<Rightarrow> b_getAll B (storage L)))"

definition ledger_count :: "'s backend \<Rightarrow> 's ledger \<Rightarrow> (error + int) option" where
  "ledger_count B L =
     (case ensureInitialized L of
        Inl err \<Rightarrow> Some (Inl err)
      | Inr u \<Rightarrow> b_count B (storage L))"

definition ledger_close ::
  "'s backend \<Rightarrow> 's ledger \<Rightarrow> ((error + audit_log) \<times> 's ledger) option" where
  "ledger_close B L =
     (case ensureInitialized L of
        Inl err \<Rightarrow> Some (Inl err, L)
      | Inr u \<Rightarrow>
          b_close B (map_option keys_privateKey (signingKeys L))
            (map_option keys_publicKey (signingKeys L)) (storage L)
          \<bind> (\<lambda>(r, s'). Some (r, L\<lparr>storage := s'\<rparr>)))"

definition ledger_export ::
  "'s backend \<Rightarrow> export_options \<Rightarrow> 's ledger \<Rightarrow> ((error + string) \<times> 's ledger) option" where
  "ledger_export B options L =
     (case ensureInitialized L of
        Inl err \<Rightarrow> Some (Inl err, L)
      | Inr u \<Rightarrow>
          b_export B options (storage L)
          \<bind> (\<lambda>(r, s'). Some (r, L\<lparr>storage := s'\<rparr>)))"

definition getSession :: "'s backend \<Rightarrow> 's ledger \<Rightarrow> error + session_envelope option" where
  "getSession B L =
     (case ensureInitialized L of
        Inl err \<Rightarrow> Inl err
      | Inr u \<Rightarrow> b_getSession B (storage L))"

section \<open>Properties of the chain\<close>

lemma verifyChain_loop_step:
  "i < length es \<Longrightarrow>
     verifyChain_loop sha256 es i errs
       = verifyChain_loop sha256 es (Suc i) (errs @ link_errors sha256 es i)"
  by (subst verifyChain_loop.simps)
     (simp add: link_errors_def link_at_def Let_def split: option.splits)

lemma verifyChain_loop_done:
  "\<not> i < length es \<Longrightarrow> verifyChain_loop sha256 es i errs = errs"
  by (subst verifyChain_loop.simps) simp

lemma verifyChain_loop_scan:
  "verifyChain_loop sha256 es i errs
     = errs @ concat (map (link_errors sha256 es) [i..<length es])"
proof (induction "length es - i" arbitrary: i errs)
  case 0
  then show ?case by (simp add: verifyChain_loop_done)
next
  case (Suc n)
  then have lt: "i < length es" and n: "n = length es - Suc i" by simp_all
  show ?case
    using Suc.hyps(1)[OF n, of "errs @ link_errors sha256 es i"] lt
    by (simp add: verifyChain_loop_step upt_conv_Cons)
qed

lemma verifyChain_scan:
  "verifyChain sha256 es =
     \<lparr>valid = (concat (map (link_errors sha256 es) [0..<length es]) = []),
      errors = concat (map (link_errors sha256 es) [0..<length es]),
      verified_count = length es\<rparr>"
  by (simp add: verifyChain_def verifyChain_loop_scan Let_def)

lemma chain_invariant_iff:
  "chain_invariant sha256 es \<longleftrightarrow>
     (\<forall>i<length es.
        sequence (es ! i) = int i
        \<and> previous_hash (es ! i) = (if i = 0 then '''' else entry_hash (es ! (i - 1)))
        \<and> entry_hash (es ! i)
            = hashObject sha256 (entryWithPrevious (int i) (entry (es ! i)) (previous_hash (es ! i))))"
  unfolding chain_invariant_def list_all_iff by (simp only: set_upt atLeastLessThan_iff Ball_def) auto

lemma link_at_valid_iff:
  "link_valid (link_at sha256 es j) \<longleftrightarrow>
     sequence (es ! j) = (if j > 0 then sequence (es ! (j - 1)) + 1 else 0)
     \<and> previous_hash (es ! j) = (if j > 0 then entry_hash (es ! (j - 1)) else '''')
     \<and> entry_hash (es ! j)
         = hashObject sha256
             (entryWithPrevious (sequence (es ! j)) (entry (es ! j)) (previous_hash (es ! j)))"
  by (simp add: link_at_def verifyChainLink_def Let_def)

lemma link_errors_empty_iff:
  "link_errors sha256 es j = [] \<longleftrightarrow> link_valid (link_at sha256 es j)"
  by (simp add: link_errors_def link_at_def verifyChainLink_def Let_def)

lemma chain_invariant_links:
  "chain_invariant sha256 es \<longleftrightarrow> (\<forall>j<length es. link_valid (link_at sha256 es j))"
proof
  assume inv: "chain_invariant sha256 es"
  show "\<forall>j<length es. link_valid (link_at sha256 es j)"
  proof (intro allI impI)
    fix j assume j: "j < length es"
    show "link_valid (link_at sha256 es j)"
    proof (cases j)
      case 0
      then show ?thesis using inv j by (simp add: chain_invariant_iff link_at_valid_iff)
    next
      case (Suc k)
      then have "k < length es" using j by simp
      then show ?thesis
        using inv j Suc by (simp add: chain_invariant_iff link_at_valid_iff)
    qed
  qed
next
  assume links: "\<forall>j<length es. link_valid (link_at sha256 es j)"
  have seq: "j < length es \<Longrightarrow> sequence (es ! j) = int j" for j
  proof (induction j)
    case 0
    then show ?case using links by (auto simp: link_at_valid_iff)
  next
    case (Suc k)
    then have "sequence (es ! k) = int k" by simp
    moreover have "link_valid (link_at sha256 es (Suc k))" using links Suc.prems by blast
    ultimately show ?case by (simp add: link_at_valid_iff)
  qed
  show "chain_invariant sha256 es"
    unfolding chain_invariant_iff
  proof (intro allI impI)
    fix i assume i: "i < length es"
    then have "link_valid (link_at sha256 es i)" using links by blast
    then show "sequence (es ! i) = int i
        \<and> previous_hash (es ! i) = (if i = 0 then '''' else entry_hash (es ! (i - 1)))
        \<and> entry_hash (es ! i)
            = hashObject sha256 (entryWithPrevious (int i) (entry (es ! i)) (previous_hash (es ! i)))"
      using seq[OF i] by (auto simp: link_at_valid_iff)
  qed
qed

lemma concat_empty_upt:
  "concat (map f [0..<n]) = [] \<longleftrightarrow> (\<forall>j<n. f j = [])"
  by auto

lemma verifyChain_valid_iff:
  "valid (verifyChain sha256 es) \<longleftrightarrow> chain_invariant sha256 es"
  unfolding verifyChain_scan chain_invariant_links
  by (simp only: chain_result.simps concat_empty_upt link_errors_empty_iff)

lemma verifyChain_of_invariant:
  assumes "chain_invariant sha256 es"
  shows "verifyChain sha256 es = \<lparr>valid = True, errors = [], verified_count = length es\<rparr>"
proof -
  have "concat (map (link_errors sha256 es) [0..<length es]) = []"
    using assms unfolding chain_invariant_links
    by (simp only: concat_empty_upt link_errors_empty_iff)
  then show ?thesis by (simp add: verifyChain_scan)
qed

lemma chain_invariant_snoc:
  assumes inv: "chain_invariant sha256 es"
  shows "chain_invariant sha256
           (es @ [createChainedEntry sha256 e (int (length es))
                    (if es = [] then '''' else entry_hash (last es))])"
    (is "chain_invariant sha256 (es @ [?c])")
  unfolding chain_invariant_iff
proof (intro allI impI)
  fix i assume "i < length (es @ [?c])"
  then consider (old) "i < length es" | (new) "i = length es" by fastforce
  then show "sequence ((es @ [?c]) ! i) = int i
      \<and> previous_hash ((es @ [?c]) ! i)
          = (if i = 0 then '''' else entry_hash ((es @ [?c]) ! (i - 1)))
      \<and> entry_hash ((es @ [?c]) ! i)
          = hashObject sha256
              (entryWithPrevious (int i) (entry ((es @ [?c]) ! i))
                 (previous_hash ((es @ [?c]) ! i)))"
  proof cases
    case old
    then have "(es @ [?c]) ! i = es ! i" "(es @ [?c]) ! (i - 1) = es ! (i - 1)"
      by (simp_all add: nth_append)
    then show ?thesis using inv old by (simp add: chain_invariant_iff)
  next
    case new
    have c: "(es @ [?c]) ! i = ?c" using new by simp
    have p: "i \<noteq> 0 \<Longrightarrow> (es @ [?c]) ! (i - 1) = last es"
      using new by (cases es rule: rev_cases) (simp_all add: nth_append)
    have z: "i = 0 \<longleftrightarrow> es = []" using new by auto
    show ?thesis
      unfolding c using p z new by (simp add: createChainedEntry_def Let_def)
  qed
qed

lemma mem_append_entries:
  "mem_entries (snd (mem_append sha256 e st))
     = mem_entries st @ [createChainedEntry sha256 e (int (length (mem_entries st)))
                           (if mem_entries st = [] then '''' else entry_hash (last (mem_entries st)))]"
  by (simp add: mem_append_def Let_def)

lemma mem_append_all_invariant:
  "chain_invariant sha256 (mem_entries st) \<Longrightarrow>
     chain_invariant sha256 (mem_entries (mem_append_all sha256 ps st))
     \<and> length (mem_entries (mem_append_all sha256 ps st)) = length (mem_entries st) + length ps"
proof (induction ps arbitrary: st)
  case Nil
  then show ?case by simp
next
  case (Cons p ps)
  have "chain_invariant sha256 (mem_entries (snd (mem_append sha256 p st)))"
    using Cons.prems by (simp add: mem_append_entries chain_invariant_snoc)
  from Cons.IH[OF this] show ?case by (simp add: mem_append_entries)
qed

text \<open>
  Claim C1. Appending any sequence of entries, in order, to an in-memory storage that has
  just been initialised gives a persisted list with one chained entry per appended
  entry that satisfies the chain invariant (entry \<open>i\<close> has sequence \<open>i\<close>, the first previous
  hash is empty, every later previous hash is the predecessor's entry hash, every entry
  hash is the canonical hash of the entry's own sequence, payload and previous hash), and
  \<^verbatim>\<open>verifyChain\<close> returns \<^verbatim>\<open>{valid: true, errors: []}\<close> on it.
\<close>

theorem mem_append_chain_valid:
  assumes "mem_initialize s st0 = Inr st"
  shows "length (mem_entries (mem_append_all sha256 ps st)) = length ps
       \<and> chain_invariant sha256 (mem_entries (mem_append_all sha256 ps st))
       \<and> verifyChain sha256 (mem_entries (mem_append_all sha256 ps st))
           = \<lparr>valid = True, errors = [], verified_count = length ps\<rparr>"
proof -
  have e: "mem_entries st = []" using assms by (auto simp: mem_initialize_def)
  then have "chain_invariant sha256 (mem_entries st)" by (simp add: chain_invariant_def)
  from mem_append_all_invariant[OF this, of ps] e show ?thesis
    by (simp add: verifyChain_of_invariant)
qed

theorem mem_append_chain_valid_witness:
  "mem_initialize demo_session new_InMemoryStorage = Inr (fresh_mem demo_session)
   \<and> length (mem_entries (mem_append_all toy_sha demo_payloads (fresh_mem demo_session))) = 3
   \<and> chain_invariant toy_sha
         (mem_entries (mem_append_all toy_sha demo_payloads (fresh_mem demo_session)))
   \<and> verifyChain toy_sha
         (mem_entries (mem_append_all toy_sha demo_payloads (fresh_mem demo_session)))
       = \<lparr>valid = True, errors = [], verified_count = 3\<rparr>"
proof -
  have h: "mem_initialize demo_session new_InMemoryStorage = Inr (fresh_mem demo_session)"
    by (simp add: fresh_mem_def mem_initialize_def)
  show ?thesis
    using h mem_append_chain_valid [OF h, of toy_sha demo_payloads]
    by (simp add: demo_payloads_def)
qed

lemma tamper_fields:
  "sequence (tamper es i e' ! k) = sequence (es ! k)"
  "previous_hash (tamper es i e' ! k) = previous_hash (es ! k)"
  "entry_hash (tamper es i e' ! k) = entry_hash (es ! k)"
proof -
  have "tamper es i e' ! k = (if k = i \<and> i < length es then (es ! i)\<lparr>entry := e'\<rparr> else es ! k)"
    by (cases "i < length es") (auto simp: tamper_def nth_list_update list_update_beyond)
  then show "sequence (tamper es i e' ! k) = sequence (es ! k)"
    "previous_hash (tamper es i e' ! k) = previous_hash (es ! k)"
    "entry_hash (tamper es i e' ! k) = entry_hash (es ! k)"
    by simp_all
qed

lemma tamper_entry_other: "j \<noteq> i \<Longrightarrow> entry (tamper es i e' ! j) = entry (es ! j)"
  by (simp add: tamper_def)

lemma tamper_entry_self: "i < length es \<Longrightarrow> entry (tamper es i e' ! i) = e'"
  by (simp add: tamper_def)

lemma link_at_tamper_other:
  "j \<noteq> i \<Longrightarrow>
     link_valid (link_at sha256 (tamper es i e') j) = link_valid (link_at sha256 es j)"
  by (simp add: link_at_valid_iff tamper_fields tamper_entry_other)

lemma link_at_tamper_self:
  assumes "i < length es" "link_valid (link_at sha256 es i)"
    and "hashObject sha256 (entryWithPrevious (sequence (es ! i)) e' (previous_hash (es ! i)))
           \<noteq> entry_hash (es ! i)"
  shows "link_at sha256 (tamper es i e') i
           = \<lparr>link_valid = False,
              link_error = Some (''Entry hash mismatch at sequence '' @ number_text (sequence (es ! i)))\<rparr>"
proof -
  have v: "sequence (es ! i) = (if i > 0 then sequence (es ! (i - 1)) + 1 else 0)"
    "previous_hash (es ! i) = (if i > 0 then entry_hash (es ! (i - 1)) else [])"
    using assms(2) by (simp_all add: link_at_valid_iff)
  show ?thesis
  proof (cases "i > 0")
    case True
    then show ?thesis
      using assms(1,3) v
      by (simp add: link_at_def verifyChainLink_def Let_def tamper_fields tamper_entry_self)
  next
    case False
    then show ?thesis
      using assms(1,3) v
      by (simp add: link_at_def verifyChainLink_def Let_def tamper_fields tamper_entry_self)
  qed
qed

lemma concat_map_single:
  assumes "i < n" "\<And>j. j < n \<Longrightarrow> j \<noteq> i \<Longrightarrow> f j = []"
  shows "concat (map f [0..<n]) = f i"
proof -
  have split: "[0..<n] = [0..<i] @ i # [Suc i..<n]"
    using assms(1) upt_add_eq_append[of 0 i "n - i"] by (simp add: upt_conv_Cons)
  have a: "concat (map f [0..<i]) = []" using assms by simp
  have b: "concat (map f [Suc i..<n]) = []" using assms by simp
  show ?thesis
    by (simp only: split map_append concat_append list.map concat.simps a b append_Nil
          append_Nil2)
qed

text \<open>
  Claim C2. In a valid chain, replacing the payload of entry \<open>i\<close> by one whose canonical link
  hash differs from the stored entry hash makes \<^verbatim>\<open>verifyChain\<close> report exactly the entry-hash
  mismatch of entry \<open>i\<close>; the link check of every other entry, in particular of the entries
  after \<open>i\<close>, still succeeds against the stored hashes. \<^verbatim>\<open>verifyChain\<close> scans every entry:
  for any list its errors are the failed link checks of all indices, in order, and
  its verified count is the length of the list.
\<close>

theorem tamper_localized:
  assumes ok: "valid (verifyChain sha256 es)"
    and i: "i < length es"
    and differs:
      "hashObject sha256 (entryWithPrevious (sequence (es ! i)) e' (previous_hash (es ! i)))
         \<noteq> entry_hash (es ! i)"
  shows "verifyChain sha256 (tamper es i e')
           = \<lparr>valid = False,
              errors = [''Entry hash mismatch at sequence '' @ number_text (int i)],
              verified_count = length es\<rparr>
       \<and> \<not> link_valid (link_at sha256 (tamper es i e') i)
       \<and> (\<forall>j<length es. j \<noteq> i \<longrightarrow> link_valid (link_at sha256 (tamper es i e') j))
       \<and> (\<forall>xs. errors (verifyChain sha256 xs)
                  = concat (map (link_errors sha256 xs) [0..<length xs])
                \<and> verified_count (verifyChain sha256 xs) = length xs)"
proof -
  have inv: "chain_invariant sha256 es" using ok by (simp add: verifyChain_valid_iff)
  then have links: "\<And>j. j < length es \<Longrightarrow> link_valid (link_at sha256 es j)"
    by (simp add: chain_invariant_links)
  have seq: "sequence (es ! i) = int i" using inv i by (simp add: chain_invariant_iff)
  have self: "link_at sha256 (tamper es i e') i
      = \<lparr>link_valid = False,
         link_error = Some (''Entry hash mismatch at sequence '' @ number_text (int i))\<rparr>"
    using link_at_tamper_self[OF i links[OF i] differs] seq by simp
  have others: "\<And>j. j < length es \<Longrightarrow> j \<noteq> i \<Longrightarrow>
      link_valid (link_at sha256 (tamper es i e') j)"
    using links i by (simp add: link_at_tamper_other)
  have len: "length (tamper es i e') = length es" by (simp add: tamper_def)
  have errs_other: "\<And>j. j < length es \<Longrightarrow> j \<noteq> i \<Longrightarrow> link_errors sha256 (tamper es i e') j = []"
    using others by (simp add: link_errors_empty_iff)
  have errs_self: "link_errors sha256 (tamper es i e') i
      = [''Entry hash mismatch at sequence '' @ number_text (int i)]"
    using self by (simp add: link_errors_def)
  have "concat (map (link_errors sha256 (tamper es i e')) [0..<length es])
      = [''Entry hash mismatch at sequence '' @ number_text (int i)]"
    using concat_map_single[of i "length es" "link_errors sha256 (tamper es i e')"] i
      errs_other errs_self by simp
  then have res: "verifyChain sha256 (tamper es i e')
           = \<lparr>valid = False,
              errors = [''Entry hash mismatch at sequence '' @ number_text (int i)],
              verified_count = length es\<rparr>"
    by (simp add: verifyChain_scan len)
  have scan: "\<forall>xs. errors (verifyChain sha256 xs)
                  = concat (map (link_errors sha256 xs) [0..<length xs])
                \<and> verified_count (verifyChain sha256 xs) = length xs"
    by (simp add: verifyChain_scan)
  show ?thesis using res self others scan by simp
qed

lemma demo_chain_valid: "valid (verifyChain toy_sha demo_chain)"
  by code_simp

lemma demo_chain_differs:
  "hashObject toy_sha (entryWithPrevious (sequence (demo_chain ! 1)) (JNum 0) (previous_hash (demo_chain ! 1)))
         \<noteq> entry_hash (demo_chain ! 1)"
  by code_simp

theorem tamper_localized_witness:
  "valid (verifyChain toy_sha demo_chain) \<and> 1 < length demo_chain
   \<and> verifyChain toy_sha (tamper demo_chain 1 (JNum 0))
       = \<lparr>valid = False, errors = [''Entry hash mismatch at sequence 1''], verified_count = 3\<rparr>
   \<and> link_valid (link_at toy_sha (tamper demo_chain 1 (JNum 0)) 2)"
proof -
  have len: "length demo_chain = 3" by code_simp
  have n: "number_text 1 = ''1''" by code_simp
  show ?thesis
    using demo_chain_valid tamper_localized [OF demo_chain_valid _ demo_chain_differs] len n
    by simp
qed


section \<open>Properties of the Merkle engine\<close>

lemma and_pred_even: "(2 * m) AND (2 * m - 1) = 2 * (m AND (m - 1))" for m :: int
proof -
  have "(2 * m - 1) div 2 = m - 1" by simp
  then show ?thesis
    by (subst and_int.rec) (simp add: and_int.rec[of m "m - 1", symmetric])
qed

lemma and_pred_odd: "(2 * m + 1) AND (2 * m + 1 - 1) = 2 * m" for m :: int
  by (subst and_int.rec) simp

lemma pow2_and_pred:
  "0 < n \<Longrightarrow> (int n AND (int n - 1) = 0) \<longleftrightarrow> (\<exists>k. n = 2 ^ k)"
proof (induction n rule: less_induct)
  case (less n)
  show ?case
  proof (cases "even n")
    case True
    then obtain m where m: "n = 2 * m" by (auto elim: evenE)
    with less.prems have m0: "0 < m" "m < n" by simp_all
    have "int n AND (int n - 1) = 2 * (int m AND (int m - 1))"
      using and_pred_even[of "int m"] m by simp
    then have "(int n AND (int n - 1) = 0) \<longleftrightarrow> (\<exists>k. m = 2 ^ k)"
      using less.IH[OF m0(2) m0(1)] by simp
    also have "\<dots> \<longleftrightarrow> (\<exists>k. n = 2 ^ k)"
    proof
      assume "\<exists>k. m = 2 ^ k"
      then obtain k where "m = 2 ^ k" ..
      then have "n = 2 ^ Suc k" using m by simp
      then show "\<exists>k. n = 2 ^ k" ..
    next
      assume "\<exists>k. n = 2 ^ k"
      then obtain k where k: "n = 2 ^ k" ..
      with m m0 have "k \<noteq> 0" by (cases k) auto
      then obtain j where "k = Suc j" by (cases k) auto
      with k m have "m = 2 ^ j" by simp
      then show "\<exists>k. m = 2 ^ k" ..
    qed
    finally show ?thesis .
  next
    case False
    then obtain m where m: "n = 2 * m + 1" by (auto elim: oddE)
    have "int n AND (int n - 1) = 2 * int m"
      using and_pred_odd[of "int m"] m by (simp add: add.commute)
    then have l: "(int n AND (int n - 1) = 0) \<longleftrightarrow> m = 0" by simp
    have r: "(\<exists>k. n = 2 ^ k) \<longleftrightarrow> m = 0"
    proof
      assume "\<exists>k. n = 2 ^ k"
      then obtain k where k: "n = 2 ^ k" ..
      show "m = 0"
      proof (cases k)
        case 0 with k m show ?thesis by simp
      next
        case (Suc j) with k False show ?thesis by simp
      qed
    next
      assume "m = 0"
      then have "n = 2 ^ 0" using m by simp
      then show "\<exists>k. n = 2 ^ k" ..
    qed
    show ?thesis using l r by simp
  qed
qed

lemma pad_loop_pow2:
  "0 < length xs \<Longrightarrow> \<exists>k. length xs = 2 ^ k \<Longrightarrow> pad_loop xs = Some xs"
  using pow2_and_pred[of "length xs"] by (subst pad_loop.simps) simp

lemma pad_loop_step:
  assumes "xs \<noteq> []" "last xs \<noteq> []" "\<not> (\<exists>k. length xs = 2 ^ k)"
  shows "pad_loop xs = pad_loop (xs @ [last xs])"
  using pow2_and_pred[of "length xs"] assms by (subst pad_loop.simps) simp

lemma pad_loop_returns_aux:
  "xs \<noteq> [] \<Longrightarrow> last xs \<noteq> [] \<Longrightarrow> length xs \<le> 2 ^ K \<Longrightarrow> d = 2 ^ K - length xs \<Longrightarrow>
     \<exists>n. pad_loop xs = Some (xs @ replicate n (last xs)) \<and> (\<exists>k. length xs + n = 2 ^ k)"
proof (induction d arbitrary: xs)
  case 0
  then have p: "length xs = 2 ^ K" by simp
  then have "pad_loop xs = Some xs" using 0 by (intro pad_loop_pow2) auto
  then show ?case using p by (intro exI[of _ 0]) auto
next
  case (Suc d)
  show ?case
  proof (cases "\<exists>k. length xs = 2 ^ k")
    case True
    then have "pad_loop xs = Some xs" using Suc.prems by (intro pad_loop_pow2) auto
    then show ?thesis using True by (intro exI[of _ 0]) auto
  next
    case False
    let ?ys = "xs @ [last xs]"
    have st: "pad_loop xs = pad_loop ?ys"
      using pad_loop_step Suc.prems False by blast
    have ne: "length xs \<noteq> 2 ^ K" using False by blast
    have "\<exists>n. pad_loop ?ys = Some (?ys @ replicate n (last ?ys))
            \<and> (\<exists>k. length ?ys + n = 2 ^ k)"
      using Suc.prems ne by (intro Suc.IH) auto
    then obtain n where n: "pad_loop ?ys = Some (?ys @ replicate n (last xs))"
      "\<exists>k. length ?ys + n = 2 ^ k" by auto
    have "?ys @ replicate n (last xs) = xs @ replicate (Suc n) (last xs)"
      by (simp add: replicate_append_same)
    then show ?thesis
      using st n by (intro exI[of _ "Suc n"]) auto
  qed
qed

lemma pad_loop_returns:
  assumes "xs \<noteq> []" "last xs \<noteq> []"
  shows "\<exists>n. pad_loop xs = Some (xs @ replicate n (last xs)) \<and> (\<exists>k. length xs + n = 2 ^ k)"
proof -
  have "length xs \<le> 2 ^ length xs" by simp
  from pad_loop_returns_aux[OF assms this refl] show ?thesis .
qed

text \<open>With an empty last string the loop pushes nothing and never leaves.\<close>

lemma pad_loop_stuck:
  assumes "xs \<noteq> []" "last xs = []" "\<not> (\<exists>k. length xs = 2 ^ k)"
  shows "pad_loop xs = None"
proof -
  have "pad_loop ys = Some r \<Longrightarrow> ys \<noteq> xs" for ys r
  proof (induction rule: pad_loop.raw_induct[rotated 1, consumes 1])
    case (1 pad ys r)
    show ?case
    proof
      assume e: "ys = xs"
      have c: "int (length xs) AND (int (length xs) - 1) \<noteq> 0"
        using pow2_and_pred[of "length xs"] assms by simp
      from 1(2) e c assms have "pad xs = Some r" by simp
      with 1(1) show False by blast
    qed
  qed
  then show ?thesis by (cases "pad_loop xs") auto
qed

lemma build_levels_upper:
  "build_levels sha256 t cur = t @ upper_levels sha256 cur"
proof (induction sha256 t cur rule: build_levels.induct)
  case (1 sha256 t cur)
  show ?case
  proof (cases "length cur > 1")
    case True
    then show ?thesis
      using "1.IH"[OF True refl]
      by (subst build_levels.simps, subst upper_levels.simps) (simp add: Let_def)
  next
    case False
    then show ?thesis
      by (subst build_levels.simps, subst upper_levels.simps) simp
  qed
qed

lemma next_level_nth:
  "even (length xs) \<Longrightarrow> j < length xs div 2 \<Longrightarrow>
     next_level sha256 xs ! j = sha256 (xs ! (2 * j) @ xs ! (2 * j + 1))"
proof (induction sha256 xs arbitrary: j rule: next_level.induct)
  case (3 sha256 l r rest)
  then show ?case by (cases j) auto
qed auto

lemma upper_levels_single: "length cur \<le> 1 \<Longrightarrow> upper_levels sha256 cur = []"
  by (subst upper_levels.simps) simp

lemma upper_levels_unfold:
  "length cur > 1 \<Longrightarrow>
     upper_levels sha256 cur
       = next_level sha256 cur # upper_levels sha256 (next_level sha256 cur)"
  by (subst upper_levels.simps) simp

lemma merkle_climb:
  "length cur = 2 ^ m \<Longrightarrow> i < 2 ^ m \<Longrightarrow>
     foldl (combine_step sha256) (cur ! i)
       (proof_loop (butlast (cur # upper_levels sha256 cur)) (int i))
     = hd (last (cur # upper_levels sha256 cur))
     \<and> length (last (cur # upper_levels sha256 cur)) = 1"
proof (induction m arbitrary: cur i)
  case 0
  then have "length cur = 1" "i = 0" by simp_all
  then show ?case by (cases cur) (simp_all add: upper_levels_single)
next
  case (Suc m)
  let ?nxt = "next_level sha256 cur"
  have len: "length cur = 2 * 2 ^ m" using Suc.prems by simp
  have "1 \<le> (2::nat) ^ m" by simp
  then have gt: "length cur > 1" using len by linarith
  have ev: "even (length cur)" using len by simp
  have ln: "length ?nxt = 2 ^ m" using len by (simp add: length_next_level)
  have i2: "i div 2 < 2 ^ m" using Suc.prems(2) by simp
  have nth: "?nxt ! (i div 2) = sha256 (cur ! (2 * (i div 2)) @ cur ! (2 * (i div 2) + 1))"
    using next_level_nth[OF ev, of "i div 2" sha256] i2 len by simp
  have ih: "foldl (combine_step sha256) (?nxt ! (i div 2))
       (proof_loop (butlast (?nxt # upper_levels sha256 ?nxt)) (int (i div 2)))
     = hd (last (?nxt # upper_levels sha256 ?nxt))
     \<and> length (last (?nxt # upper_levels sha256 ?nxt)) = 1"
    using Suc.IH[OF ln i2] .
  have up: "upper_levels sha256 cur = ?nxt # upper_levels sha256 ?nxt"
    using gt by (rule upper_levels_unfold)
  have il: "i < length cur" using Suc.prems by simp
  have step: "foldl (combine_step sha256) (cur ! i)
       (proof_loop (butlast (cur # upper_levels sha256 cur)) (int i))
     = foldl (combine_step sha256) (?nxt ! (i div 2))
       (proof_loop (butlast (?nxt # upper_levels sha256 ?nxt)) (int (i div 2)))"
  proof (cases "even i")
    case True
    then have e: "2 * (i div 2) = i" by simp
    have s: "i + 1 < length cur" using True il ev by presburger
    have m: "int i mod 2 = 0" using True by presburger
    show ?thesis
      unfolding up nth e using s m
      by (simp add: Let_def combine_step_def zdiv_int nat_add_distrib)
  next
    case False
    then have e: "2 * (i div 2) + 1 = i" "2 * (i div 2) = i - 1" by presburger+
    have m: "int i mod 2 \<noteq> 0" using False by presburger
    have p: "0 < i" using False by (cases i) auto
    have n: "nat (int i - 1) = i - 1" by simp
    show ?thesis
      unfolding up nth e using m p il
      by (simp add: Let_def combine_step_def zdiv_int n)
  qed
  show ?case using step ih up by simp
qed

lemma climb_inj:
  "inj sha256 \<Longrightarrow>
     foldl (combine_step sha256) a ps = foldl (combine_step sha256) b ps \<Longrightarrow> a = b"
proof (induction ps arbitrary: a b)
  case Nil
  then show ?case by simp
next
  case (Cons p ps)
  then have "combine_step sha256 a p = combine_step sha256 b p" by simp
  then show ?case
    using Cons.prems(1) by (auto simp: combine_step_def dest: injD split: if_splits)
qed

lemma buildMerkleTree_padded:
  assumes "hashes \<noteq> []" "pad_loop hashes = Some padded" "length padded = 2 ^ K"
  shows "buildMerkleTree sha256 hashes
           = Some \<lparr>root = hd (last (padded # upper_levels sha256 padded)),
                   tree = padded # upper_levels sha256 padded\<rparr>"
proof -
  have "length (last (padded # upper_levels sha256 padded)) = 1"
    using merkle_climb[OF assms(3), of 0 sha256] by simp
  then have "(case last (padded # upper_levels sha256 padded) of [] \<Rightarrow> [] | h # _ \<Rightarrow> h)
      = hd (last (padded # upper_levels sha256 padded))"
    by (cases "last (padded # upper_levels sha256 padded)") simp_all
  then show ?thesis
    using assms(1,2) by (simp add: buildMerkleTree_def build_levels_upper Let_def)
qed

text \<open>
  Claim C3. For a non-empty list of leaf hashes (hashes are digests, so the last one is
  not the empty string) and every index \<open>k\<close> into it, \<^verbatim>\<open>buildMerkleTree\<close> returns a tree,
  and the proof of leaf \<open>k\<close> verifies against the root of that tree. The same proof is
  rejected for every root other than the tree's root, and, when the digest function has no
  collisions, for every leaf hash other than leaf \<open>k\<close>.
\<close>

theorem merkle_round_trip:
  assumes "hashes \<noteq> []" and "last hashes \<noteq> []" and "k < length hashes"
  shows "\<exists>t. buildMerkleTree sha256 hashes = Some t
       \<and> verifyMerkleProof sha256 (hashes ! k) (getMerkleProof (tree t) (int k)) (root t)
       \<and> (\<forall>r. r \<noteq> root t \<longrightarrow>
              \<not> verifyMerkleProof sha256 (hashes ! k) (getMerkleProof (tree t) (int k)) r)
       \<and> (inj sha256 \<longrightarrow>
            (\<forall>leaf. leaf \<noteq> hashes ! k \<longrightarrow>
               \<not> verifyMerkleProof sha256 leaf (getMerkleProof (tree t) (int k)) (root t)))"
proof -
  obtain n K where pad: "pad_loop hashes = Some (hashes @ replicate n (last hashes))"
    and len: "length hashes + n = 2 ^ K"
    using pad_loop_returns[OF assms(1,2)] by auto
  let ?p = "hashes @ replicate n (last hashes)"
  let ?t = "\<lparr>root = hd (last (?p # upper_levels sha256 ?p)),
             tree = ?p # upper_levels sha256 ?p\<rparr>"
  have lp: "length ?p = 2 ^ K" using len by simp
  have b: "buildMerkleTree sha256 hashes = Some ?t"
    using buildMerkleTree_padded[OF assms(1) pad lp] .
  have kk: "k < 2 ^ K" using assms(3) len by linarith
  have leaf: "?p ! k = hashes ! k" using assms(3) by (simp add: nth_append)
  have climb: "foldl (combine_step sha256) (hashes ! k) (getMerkleProof (tree ?t) (int k))
      = root ?t"
    using merkle_climb[OF lp kk, of sha256] leaf by (simp add: getMerkleProof_def)
  have ok: "verifyMerkleProof sha256 (hashes ! k) (getMerkleProof (tree ?t) (int k)) (root ?t)"
    using climb by (simp add: verifyMerkleProof_def)
  have wrong_root: "\<forall>r. r \<noteq> root ?t \<longrightarrow>
      \<not> verifyMerkleProof sha256 (hashes ! k) (getMerkleProof (tree ?t) (int k)) r"
    using climb by (simp add: verifyMerkleProof_def)
  have wrong_leaf: "inj sha256 \<longrightarrow>
      (\<forall>leaf. leaf \<noteq> hashes ! k \<longrightarrow>
         \<not> verifyMerkleProof sha256 leaf (getMerkleProof (tree ?t) (int k)) (root ?t))"
  proof (intro impI allI notI)
    fix leaf
    assume i: "inj sha256" and d: "leaf \<noteq> hashes ! k"
      and v: "verifyMerkleProof sha256 leaf (getMerkleProof (tree ?t) (int k)) (root ?t)"
    from v climb have "foldl (combine_step sha256) leaf (getMerkleProof (tree ?t) (int k))
        = foldl (combine_step sha256) (hashes ! k) (getMerkleProof (tree ?t) (int k))"
      by (simp add: verifyMerkleProof_def)
    from climb_inj[OF i this] d show False by simp
  qed
  show ?thesis using b ok wrong_root wrong_leaf by blast
qed

lemma toy_sha_inj: "inj toy_sha"
  by (simp add: inj_def toy_sha_def)

theorem merkle_round_trip_witness:
  "\<exists>t. buildMerkleTree toy_sha [''a'', ''b'', ''c''] = Some t
     \<and> verifyMerkleProof toy_sha ''c'' (getMerkleProof (tree t) 2) (root t)
     \<and> \<not> verifyMerkleProof toy_sha ''c'' (getMerkleProof (tree t) 2) (''x'' @ root t)
     \<and> \<not> verifyMerkleProof toy_sha ''d'' (getMerkleProof (tree t) 2) (root t)"
  using merkle_round_trip [of "[''a'', ''b'', ''c'']" 2 toy_sha] toy_sha_inj
  by fastforce

text \<open>
  Claim C7. For a non-empty list of leaf hashes whose length is not a power of two,
  \<^verbatim>\<open>buildMerkleTree\<close> returns the same root for the list and for the list with its last
  hash appended once more: the root alone does not determine the number of entries.
\<close>

theorem merkle_padding_ambiguity:
  assumes "hashes \<noteq> []" and "last hashes \<noteq> []" and "\<not> (\<exists>k. length hashes = 2 ^ k)"
  shows "\<exists>t t'. buildMerkleTree sha256 hashes = Some t
       \<and> buildMerkleTree sha256 (hashes @ [last hashes]) = Some t'
       \<and> root t = root t'
       \<and> length (hashes @ [last hashes]) \<noteq> length hashes"
proof -
  obtain n K where pad: "pad_loop hashes = Some (hashes @ replicate n (last hashes))"
    and len: "length hashes + n = 2 ^ K"
    using pad_loop_returns[OF assms(1,2)] by auto
  let ?p = "hashes @ replicate n (last hashes)"
  have lp: "length ?p = 2 ^ K" using len by simp
  have pad': "pad_loop (hashes @ [last hashes]) = Some ?p"
    using pad_loop_step[OF assms] pad by simp
  have "buildMerkleTree sha256 hashes
           = Some \<lparr>root = hd (last (?p # upper_levels sha256 ?p)),
                   tree = ?p # upper_levels sha256 ?p\<rparr>"
    using buildMerkleTree_padded[OF assms(1) pad lp] .
  moreover have "buildMerkleTree sha256 (hashes @ [last hashes])
           = Some \<lparr>root = hd (last (?p # upper_levels sha256 ?p)),
                   tree = ?p # upper_levels sha256 ?p\<rparr>"
    using buildMerkleTree_padded[OF _ pad' lp] by simp
  ultimately show ?thesis by simp
qed

lemma three_not_pow2: "\<not> (\<exists>k. (3::nat) = 2 ^ k)"
proof
  assume "\<exists>k. (3::nat) = 2 ^ k"
  then obtain k where k: "(3::nat) = 2 ^ k" ..
  show False
  proof (cases k)
    case 0 with k show ?thesis by simp
  next
    case (Suc j)
    then have "even (2 ^ k :: nat)" by simp
    with k show ?thesis by presburger
  qed
qed

theorem merkle_padding_ambiguity_witness:
  "\<exists>t t'. buildMerkleTree toy_sha [''a'', ''b'', ''c''] = Some t
     \<and> buildMerkleTree toy_sha [''a'', ''b'', ''c'', ''c''] = Some t'
     \<and> root t = root t'"
proof -
  have h: "\<not> (\<exists>k. length [''a'', ''b'', ''c''] = 2 ^ k)"
  proof
    assume "\<exists>k. length [''a'', ''b'', ''c''] = 2 ^ k"
    then obtain k where "length [''a'', ''b'', ''c''] = 2 ^ k" ..
    then have "(3::nat) = 2 ^ k" by simp
    then show False using three_not_pow2 by blast
  qed
  show ?thesis
    using merkle_padding_ambiguity [OF _ _ h, of toy_sha] by simp
qed

text \<open>
  The hypothesis on the last hash is needed: on a list of three strings that ends in the
  empty string the padding loop, and with it \<^verbatim>\<open>buildMerkleTree\<close>, does not return.
\<close>

lemma buildMerkleTree_empty_last_hangs:
  "buildMerkleTree sha256 [''a'', ''b'', ''''] = None"
proof -
  have h: "\<not> (\<exists>k. length [''a'', ''b'', ''''] = 2 ^ k)"
  proof
    assume "\<exists>k. length [''a'', ''b'', ''''] = 2 ^ k"
    then obtain k where "length [''a'', ''b'', ''''] = 2 ^ k" ..
    then have "(3::nat) = 2 ^ k" by simp
    then show False using three_not_pow2 by blast
  qed
  have "pad_loop [''a'', ''b'', ''''] = None"
    by (rule pad_loop_stuck[OF _ _ h]) simp_all
  then show ?thesis by (simp add: buildMerkleTree_def)
qed

section \<open>Properties of the storage backends\<close>

lemma getRange_spec_snoc:
  "getRange_spec (es @ [x]) a b
     = getRange_spec es a b @ (if a \<le> sequence x \<and> sequence x < b then [x] else [])"
  by (simp add: getRange_spec_def)

lemma js_slice_nonneg:
  "0 \<le> a \<Longrightarrow> 0 \<le> b \<Longrightarrow>
     js_slice xs a b = take (nat b - nat a) (drop (nat a) xs)"
  by (cases "a \<le> int (length xs)"; cases "b \<le> int (length xs)")
     (auto simp: js_slice_def Let_def min_def nat_diff_distrib')

lemma slice_is_range:
  assumes "\<forall>i<length es. sequence (es ! i) = int i" "0 \<le> a" "0 \<le> b"
  shows "js_slice es a b = getRange_spec es a b"
  using assms(1)
proof (induction es rule: rev_induct)
  case Nil
  then show ?case by (simp add: js_slice_def getRange_spec_def)
next
  case (snoc x es)
  have old: "\<forall>i<length es. sequence (es ! i) = int i"
  proof (intro allI impI)
    fix i assume "i < length es"
    then show "sequence (es ! i) = int i"
      using snoc.prems[rule_format, of i] by (simp add: nth_append)
  qed
  have sx: "sequence x = int (length es)"
    using snoc.prems[rule_format, of "length es"] by simp
  have ih: "take (nat b - nat a) (drop (nat a) es) = getRange_spec es a b"
    using snoc.IH[OF old] assms(2,3) by (simp add: js_slice_nonneg)
  have "take (nat b - nat a) (drop (nat a) (es @ [x]))
      = take (nat b - nat a) (drop (nat a) es)
        @ (if a \<le> int (length es) \<and> int (length es) < b then [x] else [])"
    using assms(2,3) by (auto simp: take_Suc_conv_app_nth not_less)
  then show ?case
    using ih sx assms(2,3) by (simp add: js_slice_nonneg getRange_spec_snoc)
qed

lemma js_slice_relative:
  "js_slice xs a b
     = js_slice xs (if a < 0 then max (int (length xs) + a) 0 else a)
                   (if b < 0 then max (int (length xs) + b) 0 else b)"
  by (simp add: js_slice_def Let_def min_def max_def)

lemma sequences_of_chain:
  assumes "\<forall>i<length es. sequence (es ! i) = int i"
  shows "map sequence es = map int [0..<length es]"
  using assms by (intro nth_equalityI) simp_all

lemma ten_entries_ranges:
  assumes "\<forall>i<length es. sequence (es ! i) = int i" "length es = 10"
  shows "map sequence (js_slice es 2 5) = [2, 3, 4]"
    and "length (js_slice es 8 20) = 2"
    and "js_slice es 20 30 = []"
proof -
  have m: "map sequence es = map int [0..<10]"
    using sequences_of_chain[OF assms(1)] assms(2) by simp
  have "map sequence (js_slice es 2 5) = take 3 (drop 2 (map sequence es))"
    by (simp add: js_slice_nonneg take_map drop_map)
  also have "\<dots> = take 3 (drop 2 (map int [0..<10]))"
    unfolding m ..
  also have "\<dots> = [2, 3, 4]"
    by code_simp
  finally show "map sequence (js_slice es 2 5) = [2, 3, 4]" .
  show "length (js_slice es 8 20) = 2"
    using assms(2) by (simp add: js_slice_nonneg)
  show "js_slice es 20 30 = []"
    using assms(2) by (simp add: js_slice_nonneg)
qed

text \<open>
  Claim C6, as the code has it. \<^verbatim>\<open>getRange(start, end)\<close> is \<^verbatim>\<open>slice(start, end)\<close> on the
  persisted entries: it raises nothing on the in-memory and object-store backends, and
  nothing on the file backend whenever its log file can be read. A negative bound counts from
  the end of the list (it stands for \<open>max (n + bound) 0\<close>). For non-negative bounds the
  result is exactly the list of persisted entries with sequence number in \<open>[start, end)\<close>,
  in order; with ten entries, \<^verbatim>\<open>getRange(2,5)\<close> gives the sequences 2, 3, 4,
  \<^verbatim>\<open>getRange(8,20)\<close> two entries and \<^verbatim>\<open>getRange(20,30)\<close> none.
\<close>

theorem getRange_is_slice:
  "mem_getRange st a b = Inr (js_slice (mem_entries st) a b)
   \<and> s3_getRange sw a b = Inr (js_slice (s3_entries (fst sw)) a b)
   \<and> (fs_getAll w = Inr fes \<longrightarrow> fs_getRange w a b = Inr (js_slice fes a b))
   \<and> js_slice es a b
       = js_slice es (if a < 0 then max (int (length es) + a) 0 else a)
                     (if b < 0 then max (int (length es) + b) 0 else b)
   \<and> ((\<forall>i<length es. sequence (es ! i) = int i) \<and> 0 \<le> a \<and> 0 \<le> b \<longrightarrow>
         js_slice es a b = getRange_spec es a b)
   \<and> ((\<forall>i<length es. sequence (es ! i) = int i) \<and> length es = 10 \<longrightarrow>
         map sequence (js_slice es 2 5) = [2, 3, 4]
         \<and> length (js_slice es 8 20) = 2
         \<and> js_slice es 20 30 = [])"
proof -
  have 1: "mem_getRange st a b = Inr (js_slice (mem_entries st) a b)"
    by (simp add: mem_getRange_def)
  have 2: "s3_getRange sw a b = Inr (js_slice (s3_entries (fst sw)) a b)"
    by (simp add: s3_getRange_def)
  have 3: "fs_getAll w = Inr fes \<longrightarrow> fs_getRange w a b = Inr (js_slice fes a b)"
    by (simp add: fs_getRange_def)
  have 4: "js_slice es a b
       = js_slice es (if a < 0 then max (int (length es) + a) 0 else a)
                     (if b < 0 then max (int (length es) + b) 0 else b)"
    by (rule js_slice_relative)
  have 5: "(\<forall>i<length es. sequence (es ! i) = int i) \<and> 0 \<le> a \<and> 0 \<le> b \<longrightarrow>
         js_slice es a b = getRange_spec es a b"
    using slice_is_range by blast
  have 6: "(\<forall>i<length es. sequence (es ! i) = int i) \<and> length es = 10 \<longrightarrow>
         map sequence (js_slice es 2 5) = [2, 3, 4]
         \<and> length (js_slice es 8 20) = 2
         \<and> js_slice es 20 30 = []"
    using ten_entries_ranges[of es] by blast
  show ?thesis using 1 2 3 4 5 6 by blast
qed

lemma demo_mem10_chain:
  "(\<forall>i<length (mem_entries demo_mem10). sequence (mem_entries demo_mem10 ! i) = int i)
   \<and> length (mem_entries demo_mem10) = 10"
proof -
  have "chain_invariant toy_sha (mem_entries (fresh_mem demo_session))"
    by (simp add: fresh_mem_def mem_initialize_def chain_invariant_def)
  from mem_append_all_invariant[OF this, of "replicate 10 (JNum 7)"]
  show ?thesis
    by (simp add: demo_mem10_def chain_invariant_iff fresh_mem_def mem_initialize_def)
qed

lemma demo_fs_readable: "fs_getAll demo_fs = Inr (projr (fs_getAll demo_fs))"
proof -
  have "\<not> isl (fs_getAll demo_fs)" by code_simp
  then show ?thesis by simp
qed

theorem getRange_is_slice_witness:
  "fs_getRange demo_fs 0 1 = Inr (js_slice (projr (fs_getAll demo_fs)) 0 1)
   \<and> js_slice (mem_entries demo_mem10) 2 5 = getRange_spec (mem_entries demo_mem10) 2 5
   \<and> map sequence (js_slice (mem_entries demo_mem10) 2 5) = [2, 3, 4]
   \<and> length (js_slice (mem_entries demo_mem10) 8 20) = 2
   \<and> js_slice (mem_entries demo_mem10) 20 30 = []"
proof -
  have a: "fs_getRange demo_fs 0 1 = Inr (js_slice (projr (fs_getAll demo_fs)) 0 1)"
    using getRange_is_slice [of demo_mem10 0 1 demo_s3 demo_fs "projr (fs_getAll demo_fs)"
        "mem_entries demo_mem10"] demo_fs_readable
    by blast
  note t = getRange_is_slice [of demo_mem10 2 5 demo_s3 demo_fs "projr (fs_getAll demo_fs)"
        "mem_entries demo_mem10"]
  note t5 = t[THEN conjunct2, THEN conjunct2, THEN conjunct2, THEN conjunct2, THEN conjunct1]
  note t6 = t[THEN conjunct2, THEN conjunct2, THEN conjunct2, THEN conjunct2, THEN conjunct2]
  have c: "\<forall>i<length (mem_entries demo_mem10). sequence (mem_entries demo_mem10 ! i) = int i"
    and l: "length (mem_entries demo_mem10) = 10"
    using demo_mem10_chain by blast+
  have b5: "js_slice (mem_entries demo_mem10) 2 5 = getRange_spec (mem_entries demo_mem10) 2 5"
    using t5 c by simp
  have b6: "map sequence (js_slice (mem_entries demo_mem10) 2 5) = [2, 3, 4]
      \<and> length (js_slice (mem_entries demo_mem10) 8 20) = 2
      \<and> js_slice (mem_entries demo_mem10) 20 30 = []"
    using t6 c l by blast
  have b: "js_slice (mem_entries demo_mem10) 2 5 = getRange_spec (mem_entries demo_mem10) 2 5
      \<and> map sequence (js_slice (mem_entries demo_mem10) 2 5) = [2, 3, 4]
      \<and> length (js_slice (mem_entries demo_mem10) 8 20) = 2
      \<and> js_slice (mem_entries demo_mem10) 20 30 = []"
    using b5 b6 by blast
  show ?thesis using a b by blast
qed

theorem getRange_negative_counterexample:
  "mem_getRange demo_mem (-2) 3 \<noteq> Inr (getRange_spec (mem_entries demo_mem) (-2) 3)"
proof
  assume "mem_getRange demo_mem (-2) 3 = Inr (getRange_spec (mem_entries demo_mem) (-2) 3)"
  then have "map sequence (projr (mem_getRange demo_mem (-2) 3))
      = map sequence (getRange_spec (mem_entries demo_mem) (-2) 3)"
    by simp
  moreover have "map sequence (projr (mem_getRange demo_mem (-2) 3)) = [1, 2]"
    by code_simp
  moreover have "map sequence (getRange_spec (mem_entries demo_mem) (-2) 3) = [0, 1, 2]"
    by code_simp
  ultimately show False by simp
qed

text \<open>
  Claim C5, as the code has it. No backend checks for an open session, and \<^verbatim>\<open>initialize\<close>
  raises no \<^verbatim>\<open>StorageError\<close> on any state. The in-memory backend always succeeds. The file
  backend fails exactly when \<^verbatim>\<open>mkdirSync\<close> or \<^verbatim>\<open>writeFileSync\<close> throws, and the object-store
  backend exactly when the request is rejected; the outcome is the one of the same call on
  a backend that was never initialised, whether or not a session is open. The call sets
  the new session and a zero count before it touches the platform, and when it succeeds
  no entry is persisted and the next append starts a new chain at sequence 0 with the
  empty previous hash.
\<close>

theorem initialize_ignores_open_session:
  "(\<exists>st'. mem_initialize s st = Inr st'
        \<and> mem_getSession st' = Some s \<and> mem_count st' = 0 \<and> mem_getAll st' = Inr []
        \<and> sequence (fst (mem_append sha256 e st')) = 0
        \<and> previous_hash (fst (mem_append sha256 e st')) = '''')
   \<and> ((\<forall>msg. fst (fs_initialize F s w) \<noteq> Inl (StorageError msg))
      \<and> fst (fs_initialize F s w)
          = fst (fs_initialize F s (new_FileSystemStorage (fs_basePath (fst w)), snd w))
      \<and> (fst (fs_initialize F s w) = Inr ())
          = (\<not> isl (mkdirSync F (path_join F [fs_basePath (fst w), org_id s, session_id s])
                      (snd w))
             \<and> \<not> isl (writeFileSync F
                        (path_join F [path_join F [fs_basePath (fst w), org_id s, session_id s],
                                      ''audit.jsonl''])
                        [SessionLine s] (snd w)))
      \<and> (CHR 0x00 \<in> set (path_join F [fs_basePath (fst w), org_id s, session_id s])
           \<longrightarrow> fst (fs_initialize F s w) = Inl (SystemError ''ERR_INVALID_ARG_VALUE''))
      \<and> fs_getSession (snd (fs_initialize F s w)) = Some s
      \<and> fs_count (snd (fs_initialize F s w)) = 0
      \<and> (fst (fs_initialize F s w) = Inr ()
           \<longrightarrow> fs_getAll (snd (fs_initialize F s w)) = Inr []
             \<and> (\<forall>c w'. fs_append F sha256 e (snd (fs_initialize F s w)) = Inr (c, w')
                    \<longrightarrow> sequence c = 0 \<and> previous_hash c = '''')
             \<and> (append_throws F
                    (path_join F [path_join F [fs_basePath (fst w), org_id s, session_id s],
                                  ''audit.jsonl''])
                    (snd (snd (fs_initialize F s w))) = None
                  \<longrightarrow> (\<exists>c w'. fs_append F sha256 e (snd (fs_initialize F s w)) = Inr (c, w')))))
   \<and> ((\<forall>msg. fst (s3_initialize fetch_rejects s sw) \<noteq> Inl (StorageError msg))
      \<and> fst (s3_initialize fetch_rejects s sw)
          = fst (s3_initialize fetch_rejects s (new_S3Storage (s3_cfg (fst sw)), snd sw))
      \<and> (fst (s3_initialize fetch_rejects s sw) = Inr ())
          = (fetch_rejects
               (endpoint (s3_cfg (fst sw)) @ ''/'' @ bucket (s3_cfg (fst sw)) @ ''/''
                  @ org_id s @ ''/'' @ session_id s @ ''/session.json'')
               (SessionBody s) ((snd sw)\<lparr>s3_timers := s3_timers (snd sw) + 1\<rparr>) = None)
      \<and> s3_getSession (snd (s3_initialize fetch_rejects s sw)) = Some s
      \<and> s3_count (snd (s3_initialize fetch_rejects s sw)) = 0
      \<and> s3_getAll (snd (s3_initialize fetch_rejects s sw)) = Inr []
      \<and> (\<exists>c. fst (s3_append fetch_rejects sha256 e (snd (s3_initialize fetch_rejects s sw)))
               = Inr c
             \<and> sequence c = 0 \<and> previous_hash c = ''''))"
proof (intro conjI)
  show "\<exists>st'. mem_initialize s st = Inr st'
        \<and> mem_getSession st' = Some s \<and> mem_count st' = 0 \<and> mem_getAll st' = Inr []
        \<and> sequence (fst (mem_append sha256 e st')) = 0
        \<and> previous_hash (fst (mem_append sha256 e st')) = ''''"
    by (simp add: mem_initialize_def mem_getSession_def mem_count_def mem_getAll_def
          mem_append_def createChainedEntry_def Let_def)
next
  show "\<forall>msg. fst (fs_initialize F s w) \<noteq> Inl (StorageError msg)"
    by (auto simp: fs_initialize_def mkdirSync_def writeFileSync_def Let_def
          split: option.splits sum.splits)
next
  show "fst (fs_initialize F s w)
          = fst (fs_initialize F s (new_FileSystemStorage (fs_basePath (fst w)), snd w))"
    by (simp add: fs_initialize_def new_FileSystemStorage_def Let_def split: sum.splits)
next
  show "(fst (fs_initialize F s w) = Inr ())
          = (\<not> isl (mkdirSync F (path_join F [fs_basePath (fst w), org_id s, session_id s])
                      (snd w))
             \<and> \<not> isl (writeFileSync F
                        (path_join F [path_join F [fs_basePath (fst w), org_id s, session_id s],
                                      ''audit.jsonl''])
                        [SessionLine s] (snd w)))"
    by (auto simp: fs_initialize_def mkdirSync_def Let_def split: option.splits sum.splits)
next
  show "CHR 0x00 \<in> set (path_join F [fs_basePath (fst w), org_id s, session_id s])
           \<longrightarrow> fst (fs_initialize F s w) = Inl (SystemError ''ERR_INVALID_ARG_VALUE'')"
    by (simp add: fs_initialize_def mkdirSync_def validatePath_def Let_def)
next
  show "fs_getSession (snd (fs_initialize F s w)) = Some s"
    by (simp add: fs_initialize_def fs_getSession_def Let_def split: sum.splits)
next
  show "fs_count (snd (fs_initialize F s w)) = 0"
    by (simp add: fs_initialize_def fs_count_def Let_def split: sum.splits)
next
  show "fst (fs_initialize F s w) = Inr ()
           \<longrightarrow> fs_getAll (snd (fs_initialize F s w)) = Inr []
             \<and> (\<forall>c w'. fs_append F sha256 e (snd (fs_initialize F s w)) = Inr (c, w')
                    \<longrightarrow> sequence c = 0 \<and> previous_hash c = '''')
             \<and> (append_throws F
                    (path_join F [path_join F [fs_basePath (fst w), org_id s, session_id s],
                                  ''audit.jsonl''])
                    (snd (snd (fs_initialize F s w))) = None
                  \<longrightarrow> (\<exists>c w'. fs_append F sha256 e (snd (fs_initialize F s w)) = Inr (c, w')))"
    by (auto simp: fs_initialize_def fs_getAll_def fs_append_def mkdirSync_def
          writeFileSync_def appendFileSync_def createChainedEntry_def Let_def update_conv'
          split: option.splits sum.splits)
next
  show "\<forall>msg. fst (s3_initialize fetch_rejects s sw) \<noteq> Inl (StorageError msg)"
    by (auto simp: s3_initialize_def putObject_def Let_def split: option.splits)
next
  show "fst (s3_initialize fetch_rejects s sw)
          = fst (s3_initialize fetch_rejects s (new_S3Storage (s3_cfg (fst sw)), snd sw))"
    by (simp add: s3_initialize_def new_S3Storage_def Let_def split: sum.splits)
next
  show "(fst (s3_initialize fetch_rejects s sw) = Inr ())
          = (fetch_rejects
               (endpoint (s3_cfg (fst sw)) @ ''/'' @ bucket (s3_cfg (fst sw)) @ ''/''
                  @ org_id s @ ''/'' @ session_id s @ ''/session.json'')
               (SessionBody s) ((snd sw)\<lparr>s3_timers := s3_timers (snd sw) + 1\<rparr>) = None)"
    by (auto simp: s3_initialize_def putObject_def Let_def split: option.splits)
next
  show "s3_getSession (snd (s3_initialize fetch_rejects s sw)) = Some s"
    by (simp add: s3_initialize_def s3_getSession_def Let_def split: sum.splits)
next
  show "s3_count (snd (s3_initialize fetch_rejects s sw)) = 0"
    by (simp add: s3_initialize_def s3_count_def Let_def split: sum.splits)
next
  show "s3_getAll (snd (s3_initialize fetch_rejects s sw)) = Inr []"
    by (simp add: s3_initialize_def s3_getAll_def Let_def split: sum.splits)
next
  show "\<exists>c. fst (s3_append fetch_rejects sha256 e (snd (s3_initialize fetch_rejects s sw)))
               = Inr c
             \<and> sequence c = 0 \<and> previous_hash c = ''''"
    by (simp add: s3_initialize_def s3_append_def createChainedEntry_def Let_def
          split: sum.splits)
qed

lemma demo_fs_initialize_succeeds: "fst (fs_initialize toy_fs demo_session demo_fs) = Inr ()"
proof -
  have "\<not> isl (fst (fs_initialize toy_fs demo_session demo_fs))" by code_simp
  then show ?thesis by (cases "fst (fs_initialize toy_fs demo_session demo_fs)") simp_all
qed

lemma nul_session_path:
  "CHR 0x00 \<in> set (path_join toy_fs [fs_basePath (fst demo_fs), org_id nul_session,
                                       session_id nul_session])"
  by (simp add: toy_fs_def nul_session_def)

lemma down_s3_rejects:
  "toy_fetch
     (endpoint (s3_cfg (fst down_s3)) @ ''/'' @ bucket (s3_cfg (fst down_s3)) @ ''/''
        @ org_id demo_session @ ''/'' @ session_id demo_session @ ''/session.json'')
     (SessionBody demo_session) ((snd down_s3)\<lparr>s3_timers := s3_timers (snd down_s3) + 1\<rparr>)
     \<noteq> None"
  by (simp add: toy_fetch_def down_s3_def)

theorem initialize_ignores_open_session_witness:
  "fst (fs_initialize toy_fs demo_session demo_fs) = Inr ()
   \<and> fs_count demo_fs = 2
   \<and> fs_count (snd (fs_initialize toy_fs demo_session demo_fs)) = 0
   \<and> fs_getAll (snd (fs_initialize toy_fs demo_session demo_fs)) = Inr []
   \<and> fst (fs_initialize toy_fs nul_session demo_fs) = Inl (SystemError ''ERR_INVALID_ARG_VALUE'')
   \<and> fst (s3_initialize toy_fetch demo_session down_s3) \<noteq> Inr ()
   \<and> s3_count (snd (s3_initialize toy_fetch demo_session down_s3)) = 0"
proof -
  note t = initialize_ignores_open_session
             [of demo_session demo_mem toy_sha JNull toy_fs demo_fs toy_fetch down_s3]
  note u = initialize_ignores_open_session
             [of nul_session demo_mem toy_sha JNull toy_fs demo_fs toy_fetch down_s3]
  note fs = t[THEN conjunct2, THEN conjunct1]
  note s3 = t[THEN conjunct2, THEN conjunct2]
  note fs' = fs[THEN conjunct2, THEN conjunct2, THEN conjunct2, THEN conjunct2, THEN conjunct2]
  note s3' = s3[THEN conjunct2, THEN conjunct2]
  have ok: "fst (fs_initialize toy_fs demo_session demo_fs) = Inr ()"
    by (rule demo_fs_initialize_succeeds)
  have c2: "fs_count demo_fs = 2" by code_simp
  have c0: "fs_count (snd (fs_initialize toy_fs demo_session demo_fs)) = 0"
    by (rule fs'[THEN conjunct1])
  have g: "fs_getAll (snd (fs_initialize toy_fs demo_session demo_fs)) = Inr []"
    by (rule fs'[THEN conjunct2, THEN mp, OF ok, THEN conjunct1])
  have n: "fst (fs_initialize toy_fs nul_session demo_fs)
             = Inl (SystemError ''ERR_INVALID_ARG_VALUE'')"
    by (rule u[THEN conjunct2, THEN conjunct1, THEN conjunct2, THEN conjunct2,
               THEN conjunct2, THEN conjunct1, THEN mp, OF nul_session_path])
  have r: "fst (s3_initialize toy_fetch demo_session down_s3) \<noteq> Inr ()"
    using s3'[THEN conjunct1] down_s3_rejects by simp
  have z: "s3_count (snd (s3_initialize toy_fetch demo_session down_s3)) = 0"
    by (rule s3'[THEN conjunct2, THEN conjunct2, THEN conjunct1])
  show ?thesis using ok c2 c0 g n r z by (intro conjI)
qed

text \<open>
  A storage whose session is open and holds three entries is initialised again: the call
  succeeds.
\<close>

theorem initialize_open_session_counterexample:
  "map_option closed_at (mem_session demo_mem) = Some None
   \<and> mem_count demo_mem = 3
   \<and> mem_initialize demo_session demo_mem = Inr (fresh_mem demo_session)"
proof -
  have "map_option closed_at (mem_session demo_mem) = Some None" by code_simp
  moreover have "mem_count demo_mem = 3" by code_simp
  moreover have "mem_initialize demo_session demo_mem = Inr (fresh_mem demo_session)"
    by (simp add: fresh_mem_def mem_initialize_def)
  ultimately show ?thesis by blast
qed

section \<open>Properties of the canonical hash\<close>

lemma json_text_arr:
  "json_text r (JArr xs) = ''['' @ join_comma (map (json_text r) xs) @ '']''"
  by (subst json_text.simps) (simp add: sortedReplacer_def)

lemma json_text_obj_sorted:
  "json_text True (JObj kvs)
     = ''{'' @ join_comma
                (map (\<lambda>(k, x). quote k @ '':'' @ json_text True x)
                   (List.map_filter (\<lambda>k. map_option (Pair k) (map_of kvs k))
                      (assigned_keys (sort (map fst kvs)))))
          @ ''}''"
  by (subst json_text.simps) (simp add: sortedReplacer_def)

lemma assigned_keys_subset: "set (assigned_keys ks) \<subseteq> set ks"
  by (auto simp: assigned_keys_def Let_def)

lemma sorted_keys_eq:
  assumes "distinct ks" "distinct ks'" "set ks = set ks'"
  shows "sort ks = sort ks'"
  by (rule sorted_distinct_set_unique) (use assms in simp_all)

lemma members_eq:
  assumes "\<forall>k \<in> set ks. \<exists>x y. map_of kvs k = Some x \<and> map_of kvs' k = Some y
              \<and> json_text True x = json_text True y"
  shows "map (\<lambda>(k, x). quote k @ '':'' @ json_text True x)
           (List.map_filter (\<lambda>k. map_option (Pair k) (map_of kvs k)) ks)
       = map (\<lambda>(k, x). quote k @ '':'' @ json_text True x)
           (List.map_filter (\<lambda>k. map_option (Pair k) (map_of kvs' k)) ks)"
  using assms
proof (induction ks)
  case Nil
  then show ?case by simp
next
  case (Cons k ks)
  then obtain x y where "map_of kvs k = Some x" "map_of kvs' k = Some y"
    "json_text True x = json_text True y" by auto
  moreover have "map (\<lambda>(k, x). quote k @ '':'' @ json_text True x)
           (List.map_filter (\<lambda>k. map_option (Pair k) (map_of kvs k)) ks)
       = map (\<lambda>(k, x). quote k @ '':'' @ json_text True x)
           (List.map_filter (\<lambda>k. map_option (Pair k) (map_of kvs' k)) ks)"
    using Cons by simp
  ultimately show ?case by simp
qed

lemma json_equiv_text:
  "json_equiv v w \<Longrightarrow> json_text True v = json_text True w"
proof (induction rule: json_equiv.induct)
  case (equiv_arr xs ys)
  then have "list_all2 (\<lambda>x y. json_text True x = json_text True y) xs ys"
    by (rule list_all2_mono) simp
  then have "map (json_text True) xs = map (json_text True) ys"
    by (induction rule: list_all2_induct) simp_all
  then show ?case by (simp add: json_text_arr)
next
  case (equiv_obj kvs kvs')
  have s: "sort (map fst kvs) = sort (map fst kvs')"
    using equiv_obj(1,2,3) by (rule sorted_keys_eq)
  let ?ks = "assigned_keys (sort (map fst kvs))"
  have sub: "set ?ks \<subseteq> set (map fst kvs)"
    using assigned_keys_subset[of "sort (map fst kvs)"] by simp
  have "\<forall>k \<in> set ?ks. \<exists>x y. map_of kvs k = Some x \<and> map_of kvs' k = Some y
              \<and> json_text True x = json_text True y"
    using equiv_obj(4) sub by blast
  from members_eq[OF this] show ?case
    by (simp only: json_text_obj_sorted s[symmetric])
qed simp_all

lemma different_values_text:
  "json_text True (JObj [(''a'', JNum 1)]) \<noteq> json_text True (JObj [(''a'', JNum 2)])"
  by code_simp

lemma different_order_text:
  "json_text True (JObj [(''arr'', JArr [JNum 1, JNum 2, JNum 3])])
     \<noteq> json_text True (JObj [(''arr'', JArr [JNum 3, JNum 2, JNum 1])])"
  by code_simp

text \<open>
  Claim C8. Two values that are equal up to the insertion order of object keys, at every
  nesting level and with arrays in the same element order, have the same
  \<^verbatim>\<open>hashObject\<close> digest, for any digest function; the digest has the format of the
  digest function (64 hex digits for SHA-256). Conversely the digests can differ when a
  field value or the order of array elements differs: they do so, under a collision-free
  digest function, for \<^verbatim>\<open>{a: 1}\<close> and \<^verbatim>\<open>{a: 2}\<close> and for \<^verbatim>\<open>{arr: [1,2,3]}\<close> and
  \<^verbatim>\<open>{arr: [3,2,1]}\<close>.
\<close>

theorem hashObject_key_order:
  assumes "json_equiv v w"
  shows "hashObject sha256 v = hashObject sha256 w
       \<and> ((\<forall>s. is_hex_digest (sha256 s)) \<longrightarrow>
             is_hex_digest (hashObject sha256 v) \<and> is_hex_digest (hashObject sha256 w))
       \<and> (inj sha256 \<longrightarrow>
             hashObject sha256 (JObj [(''a'', JNum 1)]) \<noteq> hashObject sha256 (JObj [(''a'', JNum 2)])
             \<and> hashObject sha256 (JObj [(''arr'', JArr [JNum 1, JNum 2, JNum 3])])
                 \<noteq> hashObject sha256 (JObj [(''arr'', JArr [JNum 3, JNum 2, JNum 1])]))"
  using json_equiv_text[OF assms] different_values_text different_order_text
  by (auto simp: hashObject_def Let_def dest: injD)

lemma demo_objects_equiv: "json_equiv demo_obj1 demo_obj2"
proof -
  have inner: "json_equiv (JObj [(''b'', JNum 2), (''a'', JNum 1)])
                          (JObj [(''a'', JNum 1), (''b'', JNum 2)])"
    by (rule equiv_obj) (auto intro: json_equiv.intros)
  show ?thesis
    unfolding demo_obj1_def demo_obj2_def
    by (rule equiv_obj) (use inner in \<open>auto intro: json_equiv.intros\<close>)
qed

lemma toy_hex_sha_format: "is_hex_digest (toy_hex_sha s)"
proof -
  have "nat (int (length s) mod 16) < length ''0123456789abcdef''" by simp
  then have "digit_char (int (length s) mod 16) \<in> set ''0123456789abcdef''"
    unfolding digit_char_def by (rule nth_mem)
  then show ?thesis
    by (simp add: is_hex_digest_def toy_hex_sha_def list_all_iff)
qed

theorem hashObject_key_order_witness:
  "json_equiv demo_obj1 demo_obj2
   \<and> hashObject toy_hex_sha demo_obj1 = hashObject toy_hex_sha demo_obj2
   \<and> is_hex_digest (hashObject toy_hex_sha demo_obj1)
   \<and> hashObject toy_sha (JObj [(''a'', JNum 1)]) \<noteq> hashObject toy_sha (JObj [(''a'', JNum 2)])"
  using demo_objects_equiv toy_hex_sha_format toy_sha_inj
    hashObject_key_order [OF demo_objects_equiv, of toy_hex_sha]
    hashObject_key_order [OF demo_objects_equiv, of toy_sha]
  by blast

text \<open>
  The canonical order is the enumeration order of the sorted copy, which is the sorted
  order of the keys except that array-index keys come first in numeric order and that a
  key \<^verbatim>\<open>__proto__\<close> is not copied.
\<close>

lemma canonical_order_example:
  "json_text True (JObj [(''b'', JNum 1), (''10'', JNum 2), (''9'', JNum 3), (''__proto__'', JNum 4)])
     = json_text False (JObj [(''9'', JNum 3), (''10'', JNum 2), (''b'', JNum 1)])"
  by code_simp

section \<open>Properties of the signature functions\<close>

lemma digit_char_inj:
  assumes "0 \<le> a" "a < 16" "0 \<le> b" "b < 16" "digit_char a = digit_char b"
  shows "a = b"
proof -
  have d: "distinct ''0123456789abcdef''" by simp
  have "nat a < length ''0123456789abcdef''" "nat b < length ''0123456789abcdef''"
    using assms by simp_all
  with d assms(5) have "nat a = nat b"
    unfolding digit_char_def by (simp only: nth_eq_iff_index_eq)
  with assms show ?thesis by simp
qed

lemma unicode_escape_inj:
  assumes "(of_char c :: int) < 32" "(of_char c' :: int) < 32"
    and "digit_char (of_char c div 16) = digit_char (of_char c' div 16)"
    and "digit_char (of_char c mod 16) = digit_char (of_char c' mod 16)"
  shows "c = c'"
proof -
  let ?n = "of_char c :: int" and ?m = "of_char c' :: int"
  have "?n = int (of_char c)" "?m = int (of_char c')" by (simp_all add: of_nat_of_char)
  then have n0: "0 \<le> ?n" "0 \<le> ?m" by simp_all
  have "?n div 16 = ?m div 16"
    using assms(1,2) n0 by (intro digit_char_inj[OF _ _ _ _ assms(3)]) simp_all
  moreover have "?n mod 16 = ?m mod 16"
    by (intro digit_char_inj[OF _ _ _ _ assms(4)]) simp_all
  ultimately have "?n = ?m" by (metis mult_div_mod_eq)
  then show ?thesis by simp
qed

lemma quote_char_cancel:
  "quote_char c @ s = quote_char c' @ s' \<Longrightarrow> c = c' \<and> s = s'"
  by (auto simp: quote_char_def split: if_splits dest: unicode_escape_inj)

lemma quote_body_inj:
  "concat (map quote_char s) = concat (map quote_char s') \<Longrightarrow> s = s'"
proof (induction s arbitrary: s')
  case Nil
  then show ?case by (cases s') (auto simp: quote_char_def split: if_splits)
next
  case (Cons c cs)
  show ?case
  proof (cases s')
    case Nil
    with Cons.prems show ?thesis by (auto simp: quote_char_def split: if_splits)
  next
    case (Cons c' cs')
    with Cons.prems have "quote_char c @ concat (map quote_char cs)
        = quote_char c' @ concat (map quote_char cs')" by simp
    from quote_char_cancel[OF this] Cons.IH[of cs'] Cons show ?thesis by simp
  qed
qed

lemma quote_inj: "quote s = quote s' \<Longrightarrow> s = s'"
  by (simp add: quote_def quote_body_inj)

lemma quote_eq_iff: "quote s = quote s' \<longleftrightarrow> s = s'"
  using quote_inj by blast

lemma json_text_plain_obj:
  "json_text False (JObj kvs)
     = ''{'' @ join_comma (map (\<lambda>(k, x). quote k @ '':'' @ json_text False x) kvs) @ ''}''"
  by (subst json_text.simps) simp

lemma json_text_str: "json_text r (JStr s) = quote s"
  by (subst json_text.simps) (simp add: sortedReplacer_def)

lemma json_text_num: "json_text r (JNum n) = number_text n"
  by (subst json_text.simps) (simp add: sortedReplacer_def)

lemma summary_keys_differ:
  "quote ''entry_count'' @ x \<noteq> quote ''merkle_root'' @ y"
  by (simp add: quote_def quote_char_def)

lemma dataToSign_merkle_root_change:
  assumes "Some r' \<noteq> merkle_root log"
  shows "dataToSign (log\<lparr>merkle_root := Some r'\<rparr>) \<noteq> dataToSign log"
proof (cases "merkle_root log")
  case None
  then show ?thesis
    using summary_keys_differ
    by (cases "closed_at (log_session log)")
       (auto simp: dataToSign_def opt_field_def json_text_plain_obj json_text_str json_text_num)
next
  case (Some r)
  with assms have "r' \<noteq> r" by simp
  then show ?thesis
    using Some
    by (cases "closed_at (log_session log)")
       (simp_all add: dataToSign_def opt_field_def json_text_plain_obj json_text_str
          json_text_num quote_eq_iff)
qed

lemma dataToSign_same_summary:
  assumes "session_id (log_session log') = session_id (log_session log)"
    and "merkle_root log' = merkle_root log"
    and "length (log_entries log') = length (log_entries log)"
    and "closed_at (log_session log') = closed_at (log_session log)"
  shows "dataToSign log' = dataToSign log"
  using assms by (simp add: dataToSign_def)

lemma verify_cases:
  "verify P d s k =
     Inr (case createPublicKey P (base64_decode P k) of
            None \<Rightarrow> False
          | Some pk \<Rightarrow>
              (case cryptoVerify P d pk (base64_decode P s) of None \<Rightarrow> False | Some b \<Rightarrow> b))"
  by (simp add: verify_def verify_try_def Let_def split: option.splits)

lemma keys_match_sign:
  assumes "keys_match P privateKey publicKey"
  shows "\<exists>sg. sign P rnd d privateKey = Inr sg
           \<and> verify P d sg publicKey = Inr True
           \<and> (\<forall>d'. d' \<noteq> d \<longrightarrow> verify P d' sg publicKey = Inr False)"
proof -
  from assms obtain sk pk where k:
    "createPrivateKey P (base64_decode P privateKey) = Some sk"
    "createPublicKey P (base64_decode P publicKey) = Some pk"
    and s: "\<forall>rnd d. \<exists>sg. cryptoSign P rnd d sk = Some sg
               \<and> base64_decode P (base64_encode P sg) = sg
               \<and> (\<forall>d'. cryptoVerify P d' pk sg = Some (d' = d))"
    unfolding keys_match_def by blast
  from s obtain sg where sg: "cryptoSign P rnd d sk = Some sg"
    "base64_decode P (base64_encode P sg) = sg"
    "\<forall>d'. cryptoVerify P d' pk sg = Some (d' = d)" by blast
  have "sign P rnd d privateKey = Inr (base64_encode P sg)"
    using k sg by (simp add: sign_def Let_def)
  moreover have "verify P d' (base64_encode P sg) publicKey = Inr (d' = d)" for d'
    using k sg by (simp add: verify_cases)
  ultimately show ?thesis by auto
qed

text \<open>
  Claim C4. \<^verbatim>\<open>verifyAuditLogSignature\<close> returns \<^verbatim>\<open>false\<close>, and raises nothing, on every log
  without an \<^verbatim>\<open>org_signature\<close>. For a matching Ed25519 key pair \<^verbatim>\<open>signAuditLog\<close> returns a
  signature with which the log verifies, as does every log that carries this signature
  and has the same session id, Merkle root, entry count and closing time; and once the
  Merkle root is set to any different string the log no longer verifies.
\<close>

theorem audit_log_signature:
  "(log_org_signature log0 = None \<longrightarrow> verifyAuditLogSignature P log0 = Inr False)
   \<and> (keys_match P privateKey publicKey \<longrightarrow>
        (\<exists>s. signAuditLog P rnd now log privateKey publicKey = Inr s
           \<and> verifyAuditLogSignature P (log\<lparr>log_org_signature := Some s\<rparr>) = Inr True
           \<and> (\<forall>log'. log_org_signature log' = Some s
                   \<and> session_id (log_session log') = session_id (log_session log)
                   \<and> merkle_root log' = merkle_root log
                   \<and> length (log_entries log') = length (log_entries log)
                   \<and> closed_at (log_session log') = closed_at (log_session log)
                 \<longrightarrow> verifyAuditLogSignature P log' = Inr True)
           \<and> (\<forall>r'. Some r' \<noteq> merkle_root log \<longrightarrow>
                 verifyAuditLogSignature P
                   (log\<lparr>log_org_signature := Some s, merkle_root := Some r'\<rparr>) = Inr False)))"
proof (intro conjI impI)
  assume "log_org_signature log0 = None"
  then show "verifyAuditLogSignature P log0 = Inr False"
    by (simp add: verifyAuditLogSignature_def)
next
  assume km: "keys_match P privateKey publicKey"
  from keys_match_sign[OF km, of rnd "dataToSign log"] obtain sg where
    sg: "sign P rnd (dataToSign log) privateKey = Inr sg"
      "verify P (dataToSign log) sg publicKey = Inr True"
      "\<forall>d'. d' \<noteq> dataToSign log \<longrightarrow> verify P d' sg publicKey = Inr False"
    by blast
  let ?s = "\<lparr>public_key = publicKey, signature = sg, signed_at = now\<rparr>"
  have 1: "signAuditLog P rnd now log privateKey publicKey = Inr ?s"
    using sg(1) by (simp add: signAuditLog_def)
  have same: "verifyAuditLogSignature P log' = Inr True"
    if "log_org_signature log' = Some ?s" "dataToSign log' = dataToSign log" for log'
    using that sg(2) by (simp add: verifyAuditLogSignature_def)
  have 2: "verifyAuditLogSignature P (log\<lparr>log_org_signature := Some ?s\<rparr>) = Inr True"
    by (rule same) (simp_all add: dataToSign_def)
  have 3: "\<forall>log'. log_org_signature log' = Some ?s
                   \<and> session_id (log_session log') = session_id (log_session log)
                   \<and> merkle_root log' = merkle_root log
                   \<and> length (log_entries log') = length (log_entries log)
                   \<and> closed_at (log_session log') = closed_at (log_session log)
                 \<longrightarrow> verifyAuditLogSignature P log' = Inr True"
    using same dataToSign_same_summary by blast
  have 4: "\<forall>r'. Some r' \<noteq> merkle_root log \<longrightarrow>
                 verifyAuditLogSignature P
                   (log\<lparr>log_org_signature := Some ?s, merkle_root := Some r'\<rparr>) = Inr False"
  proof (intro allI impI)
    fix r' assume r: "Some r' \<noteq> merkle_root log"
    have "dataToSign (log\<lparr>log_org_signature := Some ?s, merkle_root := Some r'\<rparr>)
        = dataToSign (log\<lparr>merkle_root := Some r'\<rparr>)"
      by (simp add: dataToSign_def)
    then have "dataToSign (log\<lparr>log_org_signature := Some ?s, merkle_root := Some r'\<rparr>)
        \<noteq> dataToSign log"
      using dataToSign_merkle_root_change[OF r] by simp
    then show "verifyAuditLogSignature P
        (log\<lparr>log_org_signature := Some ?s, merkle_root := Some r'\<rparr>) = Inr False"
      using sg(3) by (simp add: verifyAuditLogSignature_def)
  qed
  show "\<exists>s. signAuditLog P rnd now log privateKey publicKey = Inr s
           \<and> verifyAuditLogSignature P (log\<lparr>log_org_signature := Some s\<rparr>) = Inr True
           \<and> (\<forall>log'. log_org_signature log' = Some s
                   \<and> session_id (log_session log') = session_id (log_session log)
                   \<and> merkle_root log' = merkle_root log
                   \<and> length (log_entries log') = length (log_entries log)
                   \<and> closed_at (log_session log') = closed_at (log_session log)
                 \<longrightarrow> verifyAuditLogSignature P log' = Inr True)
           \<and> (\<forall>r'. Some r' \<noteq> merkle_root log \<longrightarrow>
                 verifyAuditLogSignature P
                   (log\<lparr>log_org_signature := Some s, merkle_root := Some r'\<rparr>) = Inr False)"
    using 1 2 3 4 by blast
qed

lemma toy_keys_match: "keys_match toy_crypto ''k1'' ''k1''"
  by (auto simp: keys_match_def toy_crypto_def)

theorem audit_log_signature_witness:
  "verifyAuditLogSignature toy_crypto demo_log = Inr False
   \<and> (\<exists>s. signAuditLog toy_crypto () ''2024-01-01T00:10:01.000Z'' demo_log ''k1'' ''k1'' = Inr s
        \<and> verifyAuditLogSignature toy_crypto (demo_log\<lparr>log_org_signature := Some s\<rparr>) = Inr True
        \<and> verifyAuditLogSignature toy_crypto
             (demo_log\<lparr>log_org_signature := Some s, merkle_root := Some ''beef''\<rparr>) = Inr False)"
proof -
  have n: "log_org_signature demo_log = None" by (simp add: demo_log_def)
  have r: "Some ''beef'' \<noteq> merkle_root demo_log" by (simp add: demo_log_def)
  note t = audit_log_signature [of demo_log toy_crypto "''k1''" "''k1''" "()"
      "''2024-01-01T00:10:01.000Z''" demo_log]
  from t n have a: "verifyAuditLogSignature toy_crypto demo_log = Inr False" by blast
  from t toy_keys_match r show ?thesis using a by blast
qed

lemma ed25519_ideal_sign:
  assumes "ed25519_ideal P privateKey publicKey"
  shows "\<exists>sg. (\<forall>rnd. sign P rnd d privateKey = Inr sg)
           \<and> verify P d sg publicKey = Inr True
           \<and> (\<forall>d'. d' \<noteq> d \<longrightarrow> verify P d' sg publicKey = Inr False)
           \<and> (\<forall>s'. base64_decode P s' \<noteq> base64_decode P sg
                  \<longrightarrow> verify P d s' publicKey = Inr False)
           \<and> (\<forall>k' d'. createPublicKey P (base64_decode P k')
                         \<noteq> createPublicKey P (base64_decode P publicKey)
                  \<longrightarrow> verify P d' sg k' = Inr False)"
proof -
  from assms obtain sk pk where k:
    "createPrivateKey P (base64_decode P privateKey) = Some sk"
    "createPublicKey P (base64_decode P publicKey) = Some pk"
    and s: "\<forall>d. \<exists>sg. (\<forall>rnd. cryptoSign P rnd d sk = Some sg)
               \<and> base64_decode P (base64_encode P sg) = sg
               \<and> cryptoVerify P d pk sg = Some True
               \<and> (\<forall>d' s'. cryptoVerify P d' pk s' = Some True \<longrightarrow> (d' = d) = (s' = sg))
               \<and> (\<forall>k' pk' d'. createPublicKey P (base64_decode P k') = Some pk' \<and> pk' \<noteq> pk
                      \<longrightarrow> cryptoVerify P d' pk' sg \<noteq> Some True)"
    unfolding ed25519_ideal_def by blast
  from s[THEN spec, of d] obtain sg where sg:
    "\<forall>rnd. cryptoSign P rnd d sk = Some sg"
    "base64_decode P (base64_encode P sg) = sg"
    "cryptoVerify P d pk sg = Some True"
    "\<forall>d' s'. cryptoVerify P d' pk s' = Some True \<longrightarrow> (d' = d) = (s' = sg)"
    "\<forall>k' pk' d'. createPublicKey P (base64_decode P k') = Some pk' \<and> pk' \<noteq> pk
         \<longrightarrow> cryptoVerify P d' pk' sg \<noteq> Some True"
    by (elim exE conjE)
  have 1: "\<forall>rnd. sign P rnd d privateKey = Inr (base64_encode P sg)"
    using k sg(1) by (simp add: sign_def Let_def)
  have 2: "verify P d (base64_encode P sg) publicKey = Inr True"
    using k sg(2,3) by (simp add: verify_cases)
  have 3: "\<forall>d'. d' \<noteq> d \<longrightarrow> verify P d' (base64_encode P sg) publicKey = Inr False"
  proof (intro allI impI)
    fix d' assume ne: "d' \<noteq> d"
    have "cryptoVerify P d' pk sg \<noteq> Some True"
    proof
      assume "cryptoVerify P d' pk sg = Some True"
      from sg(4)[rule_format, OF this] ne show False by simp
    qed
    then show "verify P d' (base64_encode P sg) publicKey = Inr False"
      using k(2) sg(2) by (cases "cryptoVerify P d' pk sg") (simp_all add: verify_cases)
  qed
  have 4: "\<forall>s'. base64_decode P s' \<noteq> base64_decode P (base64_encode P sg)
             \<longrightarrow> verify P d s' publicKey = Inr False"
  proof (intro allI impI)
    fix s' assume ne: "base64_decode P s' \<noteq> base64_decode P (base64_encode P sg)"
    have "cryptoVerify P d pk (base64_decode P s') \<noteq> Some True"
    proof
      assume "cryptoVerify P d pk (base64_decode P s') = Some True"
      from sg(4)[rule_format, OF this] ne sg(2) show False by simp
    qed
    then show "verify P d s' publicKey = Inr False"
      using k(2) by (cases "cryptoVerify P d pk (base64_decode P s')") (simp_all add: verify_cases)
  qed
  have 5: "\<forall>k' d'. createPublicKey P (base64_decode P k')
                      \<noteq> createPublicKey P (base64_decode P publicKey)
             \<longrightarrow> verify P d' (base64_encode P sg) k' = Inr False"
  proof (intro allI impI)
    fix k' d'
    assume ne: "createPublicKey P (base64_decode P k')
                  \<noteq> createPublicKey P (base64_decode P publicKey)"
    show "verify P d' (base64_encode P sg) k' = Inr False"
    proof (cases "createPublicKey P (base64_decode P k')")
      case None
      then show ?thesis by (simp add: verify_cases)
    next
      case (Some pk')
      then have "pk' \<noteq> pk" using ne k(2) by auto
      with Some have "cryptoVerify P d' pk' sg \<noteq> Some True"
        using sg(5)[rule_format, of k' pk' d'] by simp
      then show ?thesis
        using Some sg(2) by (cases "cryptoVerify P d' pk' sg") (simp_all add: verify_cases)
    qed
  qed
  show ?thesis
    by (rule exI[of _ "base64_encode P sg"]) (intro conjI 1 2 3 4 5)
qed

lemma separator_split:
  "c \<notin> set a \<Longrightarrow> c \<notin> set b \<Longrightarrow> a @ c # x = b @ c # y \<Longrightarrow> a = b"
proof (induction a arbitrary: b)
  case Nil
  then show ?case by (cases b) auto
next
  case (Cons h t)
  then show ?case by (cases b) auto
qed

lemma toy_ed25519_ideal: "ed25519_ideal toy_ed25519 ''k1'' ''k1''"
proof -
  have f: "''k1'' @ CHR ''|'' # d \<noteq> k' @ CHR ''|'' # d'"
    if "k' \<noteq> ''k1''" "CHR ''|'' \<notin> set k'" for k' d d'
  proof
    assume "''k1'' @ CHR ''|'' # d = k' @ CHR ''|'' # d'"
    from separator_split[OF _ that(2) this] that(1) show False by simp
  qed
  have body: "\<exists>sg. (\<forall>rnd. cryptoSign toy_ed25519 rnd d ''k1'' = Some sg)
               \<and> base64_decode toy_ed25519 (base64_encode toy_ed25519 sg) = sg
               \<and> cryptoVerify toy_ed25519 d ''k1'' sg = Some True
               \<and> (\<forall>d' s'. cryptoVerify toy_ed25519 d' ''k1'' s' = Some True
                      \<longrightarrow> (d' = d) = (s' = sg))
               \<and> (\<forall>k' pk' d'. createPublicKey toy_ed25519 (base64_decode toy_ed25519 k')
                                  = Some pk' \<and> pk' \<noteq> ''k1''
                      \<longrightarrow> cryptoVerify toy_ed25519 d' pk' sg \<noteq> Some True)" for d
  proof (rule exI[of _ "''k1'' @ CHR ''|'' # d"], intro conjI allI impI)
    fix rnd show "cryptoSign toy_ed25519 rnd d ''k1'' = Some (''k1'' @ CHR ''|'' # d)"
      by (simp add: toy_ed25519_def)
  next
    show "base64_decode toy_ed25519 (base64_encode toy_ed25519 (''k1'' @ CHR ''|'' # d))
            = ''k1'' @ CHR ''|'' # d"
      by (simp add: toy_ed25519_def)
  next
    show "cryptoVerify toy_ed25519 d ''k1'' (''k1'' @ CHR ''|'' # d) = Some True"
      by (simp add: toy_ed25519_def)
  next
    fix d' s' assume "cryptoVerify toy_ed25519 d' ''k1'' s' = Some True"
    then have "s' = ''k1'' @ CHR ''|'' # d'"
      by (simp add: toy_ed25519_def split: if_splits)
    then show "(d' = d) = (s' = ''k1'' @ CHR ''|'' # d)" by auto
  next
    fix k' pk' d'
    assume a: "createPublicKey toy_ed25519 (base64_decode toy_ed25519 k') = Some pk'
                 \<and> pk' \<noteq> ''k1''"
    then have p: "pk' \<noteq> ''k1''" "CHR ''|'' \<notin> set pk'"
      by (auto simp: toy_ed25519_def split: if_splits)
    from f[OF p, of d d'] show "cryptoVerify toy_ed25519 d' pk' (''k1'' @ CHR ''|'' # d) \<noteq> Some True"
      by (simp add: toy_ed25519_def)
  qed
  have sk: "createPrivateKey toy_ed25519 (base64_decode toy_ed25519 ''k1'') = Some ''k1''"
    by (simp add: toy_ed25519_def)
  have pk: "createPublicKey toy_ed25519 (base64_decode toy_ed25519 ''k1'') = Some ''k1''"
    by (simp add: toy_ed25519_def)
  show ?thesis
    unfolding ed25519_ideal_def
    by (rule exI[of _ "''k1''"], rule exI[of _ "''k1''"]) (intro conjI sk pk allI body)
qed

text \<open>
  Claim C9. For every data string, signature string and public-key string, and whatever
  the primitives do (they may throw), \<^verbatim>\<open>verify\<close> returns a boolean and throws nothing. It
  returns \<^verbatim>\<open>true\<close> exactly when the public key parses and the primitive accepts this data
  and the bytes of this signature under it; so it returns \<^verbatim>\<open>false\<close> on key material
  that does not parse and on a signature on which the primitive throws. For a key pair
  of an ideal Ed25519, signing the same data twice gives the same signature, which
  verifies, and every mismatch gives \<^verbatim>\<open>false\<close>: other data with this signature, another
  signature (one that decodes to other bytes) with this data, and this signature under a
  foreign or malformed public key, for any data. \<^verbatim>\<open>sign\<close> adds no source of randomness
  of its own: with a deterministic primitive, signing the same data with the same key
  string twice gives the same result.
\<close>

theorem verify_false_on_mismatch:
  "(\<exists>b. verify P d s k = Inr b)
   \<and> ((verify P d s k = Inr True)
        = (\<exists>pk. createPublicKey P (base64_decode P k) = Some pk
                \<and> cryptoVerify P d pk (base64_decode P s) = Some True))
   \<and> (createPublicKey P (base64_decode P k) = None \<longrightarrow> verify P d s k = Inr False)
   \<and> (\<forall>pk. createPublicKey P (base64_decode P k) = Some pk
             \<and> cryptoVerify P d pk (base64_decode P s) = None
           \<longrightarrow> verify P d s k = Inr False)
   \<and> (ed25519_ideal P privateKey publicKey \<longrightarrow>
        (\<exists>sg. (\<forall>rnd. sign P rnd d privateKey = Inr sg)
           \<and> verify P d sg publicKey = Inr True
           \<and> (\<forall>d'. d' \<noteq> d \<longrightarrow> verify P d' sg publicKey = Inr False)
           \<and> (\<forall>s'. base64_decode P s' \<noteq> base64_decode P sg
                  \<longrightarrow> verify P d s' publicKey = Inr False)
           \<and> (\<forall>k' d'. createPublicKey P (base64_decode P k')
                         \<noteq> createPublicKey P (base64_decode P publicKey)
                  \<longrightarrow> verify P d' sg k' = Inr False)))
   \<and> ((\<forall>r r' x key. cryptoSign P r x key = cryptoSign P r' x key) \<longrightarrow>
        sign P rnd d k = sign P rnd' d k)"
proof (intro conjI)
  show "\<exists>b. verify P d s k = Inr b"
    by (simp add: verify_cases)
  show "(verify P d s k = Inr True)
        = (\<exists>pk. createPublicKey P (base64_decode P k) = Some pk
                \<and> cryptoVerify P d pk (base64_decode P s) = Some True)"
    by (auto simp: verify_cases split: option.splits)
  show "createPublicKey P (base64_decode P k) = None \<longrightarrow> verify P d s k = Inr False"
    by (simp add: verify_cases)
  show "\<forall>pk. createPublicKey P (base64_decode P k) = Some pk
             \<and> cryptoVerify P d pk (base64_decode P s) = None
           \<longrightarrow> verify P d s k = Inr False"
    by (simp add: verify_cases)
  show "ed25519_ideal P privateKey publicKey \<longrightarrow>
        (\<exists>sg. (\<forall>rnd. sign P rnd d privateKey = Inr sg)
           \<and> verify P d sg publicKey = Inr True
           \<and> (\<forall>d'. d' \<noteq> d \<longrightarrow> verify P d' sg publicKey = Inr False)
           \<and> (\<forall>s'. base64_decode P s' \<noteq> base64_decode P sg
                  \<longrightarrow> verify P d s' publicKey = Inr False)
           \<and> (\<forall>k' d'. createPublicKey P (base64_decode P k')
                         \<noteq> createPublicKey P (base64_decode P publicKey)
                  \<longrightarrow> verify P d' sg k' = Inr False))"
  proof
    assume km: "ed25519_ideal P privateKey publicKey"
    show "\<exists>sg. (\<forall>rnd. sign P rnd d privateKey = Inr sg)
           \<and> verify P d sg publicKey = Inr True
           \<and> (\<forall>d'. d' \<noteq> d \<longrightarrow> verify P d' sg publicKey = Inr False)
           \<and> (\<forall>s'. base64_decode P s' \<noteq> base64_decode P sg
                  \<longrightarrow> verify P d s' publicKey = Inr False)
           \<and> (\<forall>k' d'. createPublicKey P (base64_decode P k')
                         \<noteq> createPublicKey P (base64_decode P publicKey)
                  \<longrightarrow> verify P d' sg k' = Inr False)"
      by (rule ed25519_ideal_sign[OF km])
  qed
  show "(\<forall>r r' x key. cryptoSign P r x key = cryptoSign P r' x key) \<longrightarrow>
        sign P rnd d k = sign P rnd' d k"
  proof
    assume det: "\<forall>r r' x key. cryptoSign P r x key = cryptoSign P r' x key"
    show "sign P rnd d k = sign P rnd' d k"
    proof (cases "createPrivateKey P (base64_decode P k)")
      case None
      then show ?thesis by (simp add: sign_def Let_def)
    next
      case (Some sk)
      have "cryptoSign P rnd d sk = cryptoSign P rnd' d sk" using det by blast
      then show ?thesis using Some by (simp add: sign_def Let_def)
    qed
  qed
qed

theorem verify_false_on_mismatch_witness:
  "verify toy_ed25519 ''hello'' ''k1|hello'' ''bad'' = Inr False
   \<and> verify toy_ed25519 ''hello'' ''torn'' ''k1'' = Inr False
   \<and> (\<exists>sg. sign toy_ed25519 () ''hello'' ''k1'' = Inr sg
        \<and> verify toy_ed25519 ''hello'' sg ''k1'' = Inr True
        \<and> verify toy_ed25519 ''hullo'' sg ''k1'' = Inr False
        \<and> verify toy_ed25519 ''hello'' ''forged'' ''k1'' = Inr False
        \<and> verify toy_ed25519 ''hello'' sg ''evil'' = Inr False)"
proof -
  have bad: "createPublicKey toy_ed25519 (base64_decode toy_ed25519 ''bad'') = None"
    by (simp add: toy_ed25519_def)
  have torn: "createPublicKey toy_ed25519 (base64_decode toy_ed25519 ''k1'') = Some ''k1''
      \<and> cryptoVerify toy_ed25519 ''hello'' ''k1'' (base64_decode toy_ed25519 ''torn'') = None"
    by (simp add: toy_ed25519_def)
  have ne: "''hullo'' \<noteq> ''hello''" by simp
  have evil: "createPublicKey toy_ed25519 (base64_decode toy_ed25519 ''evil'')
                \<noteq> createPublicKey toy_ed25519 (base64_decode toy_ed25519 ''k1'')"
    by (simp add: toy_ed25519_def)
  note t1 = verify_false_on_mismatch [of toy_ed25519 "''hello''" "''k1|hello''" "''bad''"
      "''k1''" "''k1''" "()"]
  note t2 = verify_false_on_mismatch [of toy_ed25519 "''hello''" "''torn''" "''k1''"
      "''k1''" "''k1''" "()"]
  have a: "verify toy_ed25519 ''hello'' ''k1|hello'' ''bad'' = Inr False"
    by (rule t1[THEN conjunct2, THEN conjunct2, THEN conjunct1, THEN mp, OF bad])
  have b: "verify toy_ed25519 ''hello'' ''torn'' ''k1'' = Inr False"
    by (rule t2[THEN conjunct2, THEN conjunct2, THEN conjunct2, THEN conjunct1,
                THEN spec, THEN mp, OF torn])
  have c: "\<exists>sg. sign toy_ed25519 () ''hello'' ''k1'' = Inr sg
        \<and> verify toy_ed25519 ''hello'' sg ''k1'' = Inr True
        \<and> verify toy_ed25519 ''hullo'' sg ''k1'' = Inr False
        \<and> verify toy_ed25519 ''hello'' ''forged'' ''k1'' = Inr False
        \<and> verify toy_ed25519 ''hello'' sg ''evil'' = Inr False"
  proof -
    note t5 = t2[THEN conjunct2, THEN conjunct2, THEN conjunct2, THEN conjunct2, THEN conjunct1]
    from t5[rule_format, OF toy_ed25519_ideal] obtain sg where
      sg: "\<forall>rnd. sign toy_ed25519 rnd ''hello'' ''k1'' = Inr sg"
        "verify toy_ed25519 ''hello'' sg ''k1'' = Inr True"
        "\<forall>d'. d' \<noteq> ''hello'' \<longrightarrow> verify toy_ed25519 d' sg ''k1'' = Inr False"
        "\<forall>s'. base64_decode toy_ed25519 s' \<noteq> base64_decode toy_ed25519 sg
               \<longrightarrow> verify toy_ed25519 ''hello'' s' ''k1'' = Inr False"
        "\<forall>k' d'. createPublicKey toy_ed25519 (base64_decode toy_ed25519 k')
                     \<noteq> createPublicKey toy_ed25519 (base64_decode toy_ed25519 ''k1'')
               \<longrightarrow> verify toy_ed25519 d' sg k' = Inr False"
      by blast
    have s0: "sign toy_ed25519 () ''hello'' ''k1'' = Inr sg"
      by (rule sg(1)[THEN spec])
    have "sign toy_ed25519 () ''hello'' ''k1'' = Inr ''k1|hello''"
      by (simp add: sign_def toy_ed25519_def)
    with s0 have v: "sg = ''k1|hello''" by simp
    have fg: "base64_decode toy_ed25519 ''forged'' \<noteq> base64_decode toy_ed25519 sg"
      unfolding v by (simp add: toy_ed25519_def)
    have h: "verify toy_ed25519 ''hullo'' sg ''k1'' = Inr False"
      by (rule sg(3)[rule_format, OF ne])
    have i: "verify toy_ed25519 ''hello'' ''forged'' ''k1'' = Inr False"
      by (rule sg(4)[rule_format, OF fg])
    have j: "verify toy_ed25519 ''hello'' sg ''evil'' = Inr False"
      by (rule sg(5)[rule_format, OF evil])
    show ?thesis
      by (rule exI[of _ sg]) (intro conjI s0 sg(2) h i j)
  qed
  show ?thesis using a b c by (intro conjI)
qed

section \<open>Properties of the ledger\<close>

lemma ensureInitialized_new:
  "ensureInitialized (new_Ledger cfg s0) = Inl LedgerNotInitializedError"
  by (simp add: ensureInitialized_def new_Ledger_def)

text \<open>
  Claim C10. On a freshly constructed ledger, before \<^verbatim>\<open>start()\<close>, every public operation
  other than \<^verbatim>\<open>start\<close> fails with \<^verbatim>\<open>LedgerNotInitializedError\<close>: the six typed log
  operations, \<^verbatim>\<open>verify\<close>, \<^verbatim>\<open>getEntries\<close>, \<^verbatim>\<open>count\<close>, \<^verbatim>\<open>close\<close>, \<^verbatim>\<open>export\<close> and
  \<^verbatim>\<open>getSession\<close>, for every storage backend, configuration and argument; the ledger
  and its backend are left as they were.
\<close>

theorem ledger_not_initialized:
  "logModelCall B sha256 stamps p1 (new_Ledger cfg s0)
       = Some (Inl LedgerNotInitializedError, new_Ledger cfg s0)
   \<and> logToolInvocation B sha256 stamps p2 (new_Ledger cfg s0)
       = Some (Inl LedgerNotInitializedError, new_Ledger cfg s0)
   \<and> logDecision B sha256 stamps p3 (new_Ledger cfg s0)
       = Some (Inl LedgerNotInitializedError, new_Ledger cfg s0)
   \<and> logApproval B sha256 stamps p4 (new_Ledger cfg s0)
       = Some (Inl LedgerNotInitializedError, new_Ledger cfg s0)
   \<and> snapshot B sha256 stamps p5 (new_Ledger cfg s0)
       = Some (Inl LedgerNotInitializedError, new_Ledger cfg s0)
   \<and> storeContent B sha256 stamps p6 (new_Ledger cfg s0)
       = Some (Inl LedgerNotInitializedError, new_Ledger cfg s0)
   \<and> ledger_verify B (new_Ledger cfg s0) = Some (Inl LedgerNotInitializedError)
   \<and> getEntries B start' end' (new_Ledger cfg s0) = Some (Inl LedgerNotInitializedError)
   \<and> ledger_count B (new_Ledger cfg s0) = Some (Inl LedgerNotInitializedError)
   \<and> ledger_close B (new_Ledger cfg s0)
       = Some (Inl LedgerNotInitializedError, new_Ledger cfg s0)
   \<and> ledger_export B options (new_Ledger cfg s0)
       = Some (Inl LedgerNotInitializedError, new_Ledger cfg s0)
   \<and> getSession B (new_Ledger cfg s0) = Inl LedgerNotInitializedError"
  by (simp add: ensureInitialized_new logModelCall_def logToolInvocation_def logDecision_def
        logApproval_def snapshot_def storeContent_def ledger_verify_def getEntries_def
        ledger_count_def ledger_close_def ledger_export_def getSession_def)

end
